theory Spec2Isabelle
  imports
    Complex_Main
    "HOL-Library.Char_ord"
    "HOL-Library.List_Lexorder"
    "HOL-Library.Multiset"
begin

section \<open>JavaScript values\<close>

text \<open>
  The comparator of \<^verbatim>\<open>src/memoize.ts\<close> inspects JavaScript values through
  \<^verbatim>\<open>===\<close>, \<^verbatim>\<open>typeof\<close>, \<^verbatim>\<open>Array.isArray\<close>,
  \<^verbatim>\<open>instanceof Map\<close>, \<^verbatim>\<open>Object.keys\<close>, \<^verbatim>\<open>Object.entries\<close>,
  property access and \<^verbatim>\<open>Map.prototype.get\<close>.  Objects have identity and may refer
  to each other (also cyclically), so a value is either a primitive or a reference into a heap.

  A number is \<open>NaN\<close>, an infinity or a finite value; \<open>+0\<close> and \<open>-0\<close> are one value,
  which is how \<^verbatim>\<open>===\<close> and the key lookup of a \<^verbatim>\<open>Map\<close> see them.
\<close>

datatype jsnumber = NaN | PosInfinity | NegInfinity | Finite real

type_synonym addr = nat

datatype val =
    Undefined
  | Null
  | Boolean bool
  | Number jsnumber
  | BigInt int
  | Str string
  | Symbol nat
  | Ref addr

text \<open>
  Heap objects.  An array is dense and carries no extra own properties; a \<^verbatim>\<open>Map\<close> holds
  its entries in insertion order, with keys pairwise different under SameValueZero; a plain
  object (object literal or class instance) holds its own enumerable string-keyed properties in
  the order of \<^verbatim>\<open>Object.keys\<close>, with pairwise different keys.  Functions, dates and
  regular expressions have no own enumerable properties.
\<close>

datatype obj =
    ArrayObj "val list"
  | MapObj "(val \<times> val) list"
  | PlainObj "(string \<times> val) list"
  | FunctionObj
  | DateObj int
  | RegExpObj string string

type_synonym heap = "addr \<Rightarrow> obj"

datatype jstype =
  TUndefined | TObject | TBoolean | TNumber | TBigint | TString | TSymbol | TFunction

fun typeof :: "heap \<Rightarrow> val \<Rightarrow> jstype" where
  "typeof h Undefined = TUndefined"
| "typeof h Null = TObject"
| "typeof h (Boolean b) = TBoolean"
| "typeof h (Number x) = TNumber"
| "typeof h (BigInt i) = TBigint"
| "typeof h (Str s) = TString"
| "typeof h (Symbol s) = TSymbol"
| "typeof h (Ref a) = (case h a of FunctionObj \<Rightarrow> TFunction | _ \<Rightarrow> TObject)"

text \<open>
  \<^verbatim>\<open>left === right\<close>: primitives by value (\<open>NaN\<close> differs from itself), objects by
  reference.
\<close>

definition strict_eq :: "val \<Rightarrow> val \<Rightarrow> bool" where
  "strict_eq left right \<longleftrightarrow> left = right \<and> left \<noteq> Number NaN"

fun isArray :: "heap \<Rightarrow> val \<Rightarrow> bool" where
  "isArray h (Ref a) = (case h a of ArrayObj xs \<Rightarrow> True | _ \<Rightarrow> False)"
| "isArray h v = False"

fun arrayElems :: "heap \<Rightarrow> val \<Rightarrow> val list" where
  "arrayElems h (Ref a) = (case h a of ArrayObj xs \<Rightarrow> xs | _ \<Rightarrow> [])"
| "arrayElems h v = []"

text \<open>\<^verbatim>\<open>v instanceof Map\<close>.\<close>

fun isMap :: "heap \<Rightarrow> val \<Rightarrow> bool" where
  "isMap h (Ref a) = (case h a of MapObj es \<Rightarrow> True | _ \<Rightarrow> False)"
| "isMap h v = False"

text \<open>\<^verbatim>\<open>[...m.entries()]\<close>; the keys \<^verbatim>\<open>[...m.keys()]\<close> are the first components.\<close>

fun mapEntries :: "heap \<Rightarrow> val \<Rightarrow> (val \<times> val) list" where
  "mapEntries h (Ref a) = (case h a of MapObj es \<Rightarrow> es | _ \<Rightarrow> [])"
| "mapEntries h v = []"

text \<open>
  \<^verbatim>\<open>m.get(k)\<close> finds the entry whose key is the same value as \<open>k\<close> under
  SameValueZero (on \<^typ>\<open>val\<close> this is equality: \<open>NaN\<close> finds \<open>NaN\<close>, references are
  compared by address) and yields \<^verbatim>\<open>undefined\<close> when there is none.
\<close>

definition mapGet :: "(val \<times> val) list \<Rightarrow> val \<Rightarrow> val" where
  "mapGet es k = (case map_of es k of Some v \<Rightarrow> v | None \<Rightarrow> Undefined)"

text \<open>The decimal numeral of an array index, as \<^verbatim>\<open>Object.keys\<close> reports it.\<close>

fun show_nat :: "nat \<Rightarrow> string" where
  "show_nat n =
     (if n < 10 then [char_of (48 + n)]
      else show_nat (n div 10) @ [char_of (48 + n mod 10)])"

declare show_nat.simps [simp del]

text \<open>\<^verbatim>\<open>Object.entries(v)\<close> for a non-null object; \<^verbatim>\<open>Object.keys(v)\<close> are the first components.\<close>

fun objectEntries :: "heap \<Rightarrow> val \<Rightarrow> (string \<times> val) list" where
  "objectEntries h (Ref a) =
     (case h a of
        ArrayObj xs \<Rightarrow> zip (map show_nat [0..<length xs]) xs
      | PlainObj ps \<Rightarrow> ps
      | _ \<Rightarrow> [])"
| "objectEntries h v = []"

definition objectKeys :: "heap \<Rightarrow> val \<Rightarrow> string list" where
  "objectKeys h v = map fst (objectEntries h v)"

text \<open>
  \<^verbatim>\<open>right[leftKey]\<close>: the own property of that name, \<^verbatim>\<open>undefined\<close> when there
  is none.  (Inherited properties are not modelled; the comparator reads a property of
  \<open>right\<close> only after the sorted key lists of both sides were found equal.)
\<close>

definition getProp :: "heap \<Rightarrow> val \<Rightarrow> string \<Rightarrow> val" where
  "getProp h v k = (case map_of (objectEntries h v) k of Some x \<Rightarrow> x | None \<Rightarrow> Undefined)"

section \<open>The comparator\<close>

text \<open>
  \<^verbatim>\<open>xs.every(f)\<close> stops at the first element on which \<open>f\<close> is false.  A call that
  does not return a boolean is \<open>None\<close>.
\<close>

fun every :: "('a \<Rightarrow> bool option) \<Rightarrow> 'a list \<Rightarrow> bool option" where
  "every f [] = Some True"
| "every f (x # xs) =
     (case f x of
        None \<Rightarrow> None
      | Some False \<Rightarrow> Some False
      | Some True \<Rightarrow> every f xs)"

text \<open>
  The array branch of \<^verbatim>\<open>compareValues\<close> (lines 37 to 39), for two different array objects
  with the given elements; \<open>cmp\<close> is the recursive call.
\<close>

definition compareArrays ::
  "(val \<Rightarrow> val \<Rightarrow> bool option) \<Rightarrow> val list \<Rightarrow> val list \<Rightarrow> bool option" where
  "compareArrays cmp left right =
     (if length left \<noteq> length right then Some False
      else every (\<lambda>(leftValue, rightValue). cmp leftValue rightValue) (zip left right))"

text \<open>
  \<^verbatim>\<open>compareValues\<close>, lines 30 to 76.  The source recurses without any bound, so the first
  argument is the depth of recursion that is available: \<open>None\<close> says that this depth did not
  suffice.  The function returns \<open>b\<close> when some depth yields \<open>Some b\<close>; it does not return
  (the engine raises a stack overflow) when every depth yields \<open>None\<close>.

  The key arrays \<^verbatim>\<open>[...left.keys()]\<close>, \<^verbatim>\<open>leftKeys.sort()\<close> and their right
  counterparts are freshly allocated, different array objects: comparing them is the array
  branch on their elements.
\<close>

primrec compareValues :: "nat \<Rightarrow> heap \<Rightarrow> val \<Rightarrow> val \<Rightarrow> bool option" where
  "compareValues 0 h left right = None"
| "compareValues (Suc n) h left right =
     (if strict_eq left right then Some True
      else if typeof h left \<noteq> typeof h right then Some False
      else if isArray h left \<and> isArray h right then
        compareArrays (compareValues n h) (arrayElems h left) (arrayElems h right)
      else if typeof h left = TObject \<and> typeof h right = TObject then
        (if left = Null \<or> right = Null then Some False
         else if isMap h left \<and> isMap h right then
           (if length (mapEntries h left) \<noteq> length (mapEntries h right) then Some False
            else
              (case compareArrays (compareValues n h)
                      (map fst (mapEntries h left)) (map fst (mapEntries h right)) of
                 None \<Rightarrow> None
               | Some False \<Rightarrow> Some False
               | Some True \<Rightarrow>
                   every (\<lambda>(leftKey, leftValue).
                            compareValues n h leftValue (mapGet (mapEntries h right) leftKey))
                         (mapEntries h left)))
         else
           (if length (objectKeys h left) \<noteq> length (objectKeys h right) then Some False
            else
              (case compareArrays (compareValues n h)
                      (map Str (sort (objectKeys h left))) (map Str (sort (objectKeys h right))) of
                 None \<Rightarrow> None
               | Some False \<Rightarrow> Some False
               | Some True \<Rightarrow>
                   every (\<lambda>(leftKey, leftValue).
                            compareValues n h leftValue (getProp h right leftKey))
                         (objectEntries h left))))
      else Some False)"

section \<open>Heaps without cycles\<close>

text \<open>
  The values an object holds directly: the elements of an array, the keys and values of a
  \<^verbatim>\<open>Map\<close>, the property values of a plain object.  A heap has no cycle when some rank
  of the addresses decreases from every object to every object it holds.
\<close>

fun children :: "obj \<Rightarrow> val list" where
  "children (ArrayObj xs) = xs"
| "children (MapObj es) = map fst es @ map snd es"
| "children (PlainObj ps) = map snd ps"
| "children FunctionObj = []"
| "children (DateObj t) = []"
| "children (RegExpObj s f) = []"

definition acyclic :: "(addr \<Rightarrow> nat) \<Rightarrow> heap \<Rightarrow> bool" where
  "acyclic rank h \<longleftrightarrow> (\<forall>a b. Ref b \<in> set (children (h a)) \<longrightarrow> rank b < rank a)"

fun depth :: "(addr \<Rightarrow> nat) \<Rightarrow> val \<Rightarrow> nat" where
  "depth rank (Ref a) = Suc (rank a)"
| "depth rank v = 0"

text \<open>The values that are not references to objects.\<close>

fun isPrimitive :: "val \<Rightarrow> bool" where
  "isPrimitive (Ref a) = False"
| "isPrimitive v = True"

section \<open>The memoizing wrapper\<close>

text \<open>
  A cache entry is \<^verbatim>\<open>{ key: unknown[]; value: T }\<close>; the cache is the array of the
  entries, newest first.  The key is the rest-parameter array of the call that created the
  entry, given by its elements.
\<close>

record 'r cacheEntry =
  key :: "val list"
  "value" :: 'r

type_synonym 'r cache = "'r cacheEntry list"

text \<open>
  A comparison function receives the two argument arrays and decides without effects of its
  own.  \<open>None\<close> says that it did not return a boolean (for the default one: the
  recursion has no end).
\<close>

type_synonym comparisonFnType = "val list \<Rightarrow> val list \<Rightarrow> bool option"

text \<open>
  The default comparison is \<^verbatim>\<open>compareValues(key, args)\<close> on the stored key and the
  arguments of the current call.  Every call allocates its rest-parameter array, so the two
  are different array objects, and the call is the array branch on their elements.
\<close>

definition defaultComparison :: "nat \<Rightarrow> heap \<Rightarrow> comparisonFnType" where
  "defaultComparison n h keyArgs args = compareArrays (compareValues n h) keyArgs args"

text \<open>\<^verbatim>\<open>comparisonFn ?? compareValues\<close>.\<close>

definition activePredicate ::
  "nat \<Rightarrow> heap \<Rightarrow> comparisonFnType option \<Rightarrow> comparisonFnType" where
  "activePredicate n h comparisonFn =
     (case comparisonFn of Some f \<Rightarrow> f | None \<Rightarrow> defaultComparison n h)"

text \<open>
  \<^verbatim>\<open>Array.prototype.findIndex\<close>: the index of the first element that satisfies the
  predicate, \<open>-1\<close> when there is none; \<open>None\<close> when a call of the predicate does not
  return.
\<close>

fun findIndex :: "('a \<Rightarrow> bool option) \<Rightarrow> 'a list \<Rightarrow> int option" where
  "findIndex p [] = Some (- 1)"
| "findIndex p (x # xs) =
     (case p x of
        None \<Rightarrow> None
      | Some True \<Rightarrow> Some 0
      | Some False \<Rightarrow>
          (case findIndex p xs of
             None \<Rightarrow> None
           | Some i \<Rightarrow> Some (if i = - 1 then - 1 else i + 1)))"


text \<open>
  \<^verbatim>\<open>findCacheIndex\<close>, lines 200 to 203: the index of the first entry whose key the
  active predicate, \<^verbatim>\<open>comparisonFn ?? compareValues\<close>, accepts for the given arguments.
  The first two arguments are the depth of recursion available to the default comparison and
  the heap it reads.
\<close>

definition findCacheIndex ::
  "nat \<Rightarrow> heap \<Rightarrow> comparisonFnType option \<Rightarrow> 'r cache \<Rightarrow> val list \<Rightarrow> int option" where
  "findCacheIndex n h comparisonFn cache cacheEntry =
     findIndex (\<lambda>e. activePredicate n h comparisonFn (key e) cacheEntry) cache"

text \<open>
  What a call of the memoized function does for its caller: it returns a value, the wrapped
  function's exception passes through, or the lookup itself did not return.
\<close>

datatype ('x, 'r) outcome = Returned 'r | Threw 'x | LookupFailed

text \<open>
  The wrapped function \<open>fn\<close> is any function of the program.  It may have effects of its
  own (the tests count its invocations), and it may reach the cache while it runs: by calling
  the memoized function (the recursive functions of the README and of the tests do), by
  \<^verbatim>\<open>clearAll\<close> and \<^verbatim>\<open>clearEntry\<close>, or through the array that \<^verbatim>\<open>getCache\<close>
  hands out.  So \<open>fn\<close> maps the arguments, the cache and its own state to a result or an
  exception, the cache as it leaves it, and its new state.  (A stack overflow is an exception;
  a function that runs forever without one is not covered.)
\<close>

type_synonym ('x, 'r, 's) wrapped =
  "val list \<Rightarrow> 'r cache \<times> 's \<Rightarrow> ('x + 'r) \<times> 'r cache \<times> 's"

text \<open>
  \<^verbatim>\<open>memoizedFn\<close>, lines 205 to 220, on the state made of the cache and the state of
  \<open>fn\<close>: the lookup (line 207) comes first, then on \<open>-1\<close> the call of \<open>fn\<close>
  (line 214), then \<^verbatim>\<open>cache.unshift\<close> (line 216) on the cache as it is by then.
\<close>

definition memoizedFn ::
  "nat \<Rightarrow> heap \<Rightarrow> comparisonFnType option \<Rightarrow> ('x, 'r, 's) wrapped \<Rightarrow> val list \<Rightarrow>
     'r cache \<times> 's \<Rightarrow> ('x, 'r) outcome \<times> 'r cache \<times> 's" where
  "memoizedFn n h comparisonFn fn args st =
     (case st of (cache, s) \<Rightarrow>
        (case findCacheIndex n h comparisonFn cache args of
           None \<Rightarrow> (LookupFailed, cache, s)
         | Some index \<Rightarrow>
             if index \<noteq> - 1 then (Returned (value (cache ! nat index)), cache, s)
             else
               (case fn args (cache, s) of
                  (Inl e, cache', s') \<Rightarrow> (Threw e, cache', s')
                | (Inr v, cache', s') \<Rightarrow>
                    (Returned v, \<lparr>key = args, value = v\<rparr> # cache', s'))))"

text \<open>\<^verbatim>\<open>clearAll\<close>, lines 222 to 224: \<^verbatim>\<open>cache.length = 0\<close>.\<close>

definition clearAll :: "'r cache \<Rightarrow> 'r cache" where
  "clearAll cache = []"

text \<open>
  \<^verbatim>\<open>clearEntry\<close>, lines 228 to 232: \<^verbatim>\<open>cache.splice(index, 1)\<close> when the lookup
  finds an index.  \<open>None\<close> when the lookup did not return (the cache stays as it was).
\<close>

definition clearEntry ::
  "nat \<Rightarrow> heap \<Rightarrow> comparisonFnType option \<Rightarrow> val list \<Rightarrow> 'r cache \<Rightarrow> 'r cache option" where
  "clearEntry n h comparisonFn args cache =
     (case findCacheIndex n h comparisonFn cache args of
        None \<Rightarrow> None
      | Some index \<Rightarrow>
          Some (if index \<noteq> - 1 then take (nat index) cache @ drop (Suc (nat index)) cache
                else cache))"

text \<open>
  The operations of one memoized function, and a run of a sequence of them;
  \<^verbatim>\<open>memoize\<close> starts with the empty cache (line 198).
  \<^verbatim>\<open>clearEntry\<close> exists only when \<^verbatim>\<open>fn.length > 0\<close> (line 227); calling it
  otherwise is a type error that leaves the cache as it is.  A run has one heap: the objects
  that the comparison inspects are not changed between its operations, so that the predicate
  is one relation throughout.
\<close>

datatype operation = Call "val list" | ClearEntry "val list" | ClearAll

fun step ::
  "nat \<Rightarrow> heap \<Rightarrow> comparisonFnType option \<Rightarrow> ('x, 'r, 's) wrapped \<Rightarrow> nat \<Rightarrow> operation \<Rightarrow>
     'r cache \<times> 's \<Rightarrow> 'r cache \<times> 's" where
  "step n h comparisonFn fn fnLength (Call args) st =
     snd (memoizedFn n h comparisonFn fn args st)"
| "step n h comparisonFn fn fnLength (ClearEntry args) (cache, s) =
     (if fnLength > 0 then
        (case clearEntry n h comparisonFn args cache of
           None \<Rightarrow> (cache, s)
         | Some cache' \<Rightarrow> (cache', s))
      else (cache, s))"
| "step n h comparisonFn fn fnLength ClearAll (cache, s) = (clearAll cache, s)"

fun run ::
  "nat \<Rightarrow> heap \<Rightarrow> comparisonFnType option \<Rightarrow> ('x, 'r, 's) wrapped \<Rightarrow> nat \<Rightarrow>
     operation list \<Rightarrow> 'r cache \<times> 's \<Rightarrow> 'r cache \<times> 's" where
  "run n h comparisonFn fn fnLength [] st = st"
| "run n h comparisonFn fn fnLength (operation # ops) st =
     run n h comparisonFn fn fnLength ops (step n h comparisonFn fn fnLength operation st)"

text \<open>
  The entries that match an argument list, and the invariant of the cache: no argument list
  is matched by more than one entry.
\<close>

definition matching :: "comparisonFnType \<Rightarrow> 'r cache \<Rightarrow> val list \<Rightarrow> 'r cache" where
  "matching pred cache args = filter (\<lambda>e. pred (key e) args = Some True) cache"

definition atMostOneMatch :: "comparisonFnType \<Rightarrow> 'r cache \<Rightarrow> bool" where
  "atMostOneMatch pred cache \<longleftrightarrow> (\<forall>args. length (matching pred cache args) \<le> 1)"

text \<open>
  A predicate that is an equivalence relation, and one that is symmetric and transitive:
  every equivalence relation is, and so is the strict equality of the first arguments, which
  is not reflexive at \<open>NaN\<close>.
\<close>

definition equivalenceRelation :: "comparisonFnType \<Rightarrow> bool" where
  "equivalenceRelation pred \<longleftrightarrow>
     (\<forall>a. pred a a = Some True) \<and>
     (\<forall>a b. pred a b = Some True \<longrightarrow> pred b a = Some True) \<and>
     (\<forall>a b c. pred a b = Some True \<longrightarrow> pred b c = Some True \<longrightarrow> pred a c = Some True)"

definition symmetricTransitive :: "comparisonFnType \<Rightarrow> bool" where
  "symmetricTransitive pred \<longleftrightarrow>
     (\<forall>a b. pred a b = Some True \<longrightarrow> pred b a = Some True) \<and>
     (\<forall>a b c. pred a b = Some True \<longrightarrow> pred b c = Some True \<longrightarrow> pred a c = Some True)"

text \<open>
  What the invariant needs from the wrapped function: when it runs after a lookup that found
  no entry, on a cache that satisfies the invariant, it leaves a cache that satisfies the
  invariant and, if it returns, holds no entry that matches the arguments of the call.
\<close>

definition keepsInvariant :: "comparisonFnType \<Rightarrow> ('x, 'r, 's) wrapped \<Rightarrow> bool" where
  "keepsInvariant pred fn \<longleftrightarrow>
     (\<forall>args cache s res cache' s'.
        atMostOneMatch pred cache \<and> (\<forall>e\<in>set cache. pred (key e) args = Some False) \<and>
        fn args (cache, s) = (res, cache', s') \<longrightarrow>
        atMostOneMatch pred cache' \<and>
        (\<forall>v. res = Inr v \<longrightarrow> (\<forall>e\<in>set cache'. pred (key e) args \<noteq> Some True)))"

section \<open>Example heaps\<close>

text \<open>
  The linked nodes of the repository's test of circular structures
  (\<^verbatim>\<open>class ListNode { value; previous }\<close>): \<open>m1, m2, m3\<close> at the addresses 21 to 23
  with \<open>m1.previous = m3\<close>, and the separately built \<open>n1, n2, n3\<close> with the same
  values at 31 to 33.
\<close>

definition listNodes :: heap where
  "listNodes = (\<lambda>_. PlainObj [])
     (21 := PlainObj [(''value'', Number (Finite 1)), (''previous'', Ref 23)],
      22 := PlainObj [(''value'', Number (Finite 2)), (''previous'', Ref 21)],
      23 := PlainObj [(''value'', Number (Finite 3)), (''previous'', Ref 22)],
      31 := PlainObj [(''value'', Number (Finite 1)), (''previous'', Ref 33)],
      32 := PlainObj [(''value'', Number (Finite 2)), (''previous'', Ref 31)],
      33 := PlainObj [(''value'', Number (Finite 3)), (''previous'', Ref 32)])"

text \<open>
  An empty array, \<^verbatim>\<open>new Map([[1, 2]])\<close> and an empty object literal at 40 to 42;
  \<^verbatim>\<open>/abc/\<close> and \<^verbatim>\<open>/abcd/\<close> at 50 and 51; two dates a year apart at 52 and 53;
  two functions at 54 and 55.
\<close>

definition mixedKinds :: heap where
  "mixedKinds = (\<lambda>_. PlainObj [])
     (40 := ArrayObj [],
      41 := MapObj [(Number (Finite 1), Number (Finite 2))],
      42 := PlainObj [],
      50 := RegExpObj ''abc'' '''',
      51 := RegExpObj ''abcd'' '''',
      52 := DateObj 1706745600000,
      53 := DateObj 1738368000000,
      54 := FunctionObj,
      55 := FunctionObj)"

text \<open>
  Two empty objects at 60 and 61; two \<^verbatim>\<open>Map\<close>s at 62 and 63 that hold the same two
  entries, keyed by these objects, in opposite orders; two \<^verbatim>\<open>Map\<close>s at 64 and 65 with
  the entries \<open>x \<mapsto> 1\<close> and \<open>y \<mapsto> 2\<close> in opposite orders; the arrays \<^verbatim>\<open>[1]\<close>
  and \<^verbatim>\<open>[2]\<close> at 66 and 67 and two \<^verbatim>\<open>Map\<close>s at 68 and 69 that hold the same two
  entries, keyed by these arrays, in opposite orders; the object literals
  \<^verbatim>\<open>{x: 1, y: 2}\<close> at 70 and 72 and \<^verbatim>\<open>{y: 2, x: 1}\<close> at 71.
\<close>

definition keyOrder :: heap where
  "keyOrder = (\<lambda>_. PlainObj [])
     (60 := PlainObj [],
      61 := PlainObj [],
      62 := MapObj [(Ref 60, Number (Finite 1)), (Ref 61, Number (Finite 1))],
      63 := MapObj [(Ref 61, Number (Finite 1)), (Ref 60, Number (Finite 1))],
      64 := MapObj [(Str ''x'', Number (Finite 1)), (Str ''y'', Number (Finite 2))],
      65 := MapObj [(Str ''y'', Number (Finite 2)), (Str ''x'', Number (Finite 1))],
      66 := ArrayObj [Number (Finite 1)],
      67 := ArrayObj [Number (Finite 2)],
      68 := MapObj [(Ref 66, Number (Finite 0)), (Ref 67, Number (Finite 0))],
      69 := MapObj [(Ref 67, Number (Finite 0)), (Ref 66, Number (Finite 0))],
      70 := PlainObj [(''x'', Number (Finite 1)), (''y'', Number (Finite 2))],
      71 := PlainObj [(''y'', Number (Finite 2)), (''x'', Number (Finite 1))],
      72 := PlainObj [(''x'', Number (Finite 1)), (''y'', Number (Finite 2))])"

text \<open>
  Values of the repository's tests of the comparator: the arrays \<^verbatim>\<open>[1, 2, 3]\<close> (twice)
  and \<^verbatim>\<open>[1, 2]\<close>, the array \<^verbatim>\<open>[10, 20, 30]\<close> and the object
  \<^verbatim>\<open>{0: 10, 1: 20, 2: 30}\<close>, two equal \<^verbatim>\<open>Map\<close>s, and two nested arrays.
\<close>

definition testValues :: heap where
  "testValues = (\<lambda>_. PlainObj [])
     (80 := ArrayObj [Number (Finite 1), Number (Finite 2), Number (Finite 3)],
      81 := ArrayObj [Number (Finite 1), Number (Finite 2), Number (Finite 3)],
      82 := ArrayObj [Number (Finite 1), Number (Finite 2)],
      83 := ArrayObj [Number (Finite 10), Number (Finite 20), Number (Finite 30)],
      84 := PlainObj [(''0'', Number (Finite 10)), (''1'', Number (Finite 20)),
                      (''2'', Number (Finite 30))],
      85 := MapObj [(Str ''x'', Number (Finite 1)), (Str ''y'', Number (Finite 2))],
      86 := MapObj [(Str ''x'', Number (Finite 1)), (Str ''y'', Number (Finite 2))],
      87 := ArrayObj [Number (Finite 1), Ref 80],
      88 := ArrayObj [Number (Finite 1), Ref 81])"

text \<open>
  A heap whose objects are all empty object literals, for programs that compute with
  primitive values and with objects without properties.
\<close>

definition emptyObjects :: heap where
  "emptyObjects = (\<lambda>_. PlainObj [])"

section \<open>Example functions and caches\<close>

text \<open>
  A function to memoize that does not use the cache: it counts its invocations, squares its
  single numeric argument and throws on anything else,
  \<^verbatim>\<open>function (x) { calls++; if (arguments.length !== 1 || typeof x !== 'number')
  throw new TypeError(); return x * x }\<close>.  In the examples finite numbers
  are reals: the rounding and the overflow of a product are not modelled.
\<close>

fun square :: "jsnumber \<Rightarrow> jsnumber" where
  "square NaN = NaN"
| "square (Finite x) = Finite (x * x)"
| "square PosInfinity = PosInfinity"
| "square NegInfinity = PosInfinity"

definition squareFn :: "(string, val, nat) wrapped" where
  "squareFn args st =
     (case st of (cache, calls) \<Rightarrow>
        (case args of
           [Number x] \<Rightarrow> (Inr (Number (square x)), cache, Suc calls)
         | _ \<Rightarrow> (Inl ''TypeError'', cache, Suc calls)))"

text \<open>The cache after the calls with 2 and then with 3.\<close>

definition squares :: "val cache" where
  "squares =
     [\<lparr>key = [Number (Finite 3)], value = Number (Finite 9)\<rparr>,
      \<lparr>key = [Number (Finite 2)], value = Number (Finite 4)\<rparr>]"

text \<open>
  Two custom comparison functions:
  \<^verbatim>\<open>(leftArgs, rightArgs) => leftArgs.length === rightArgs.length\<close>, an equivalence
  relation, and \<^verbatim>\<open>([a], [b]) => a === b\<close>, as in the tests.
\<close>

definition sameArity :: comparisonFnType where
  "sameArity leftArgs rightArgs = Some (length leftArgs = length rightArgs)"

fun firstArgument :: "val list \<Rightarrow> val" where
  "firstArgument [] = Undefined"
| "firstArgument (a # as) = a"

definition sameFirstArgument :: comparisonFnType where
  "sameFirstArgument leftArgs rightArgs =
     Some (strict_eq (firstArgument leftArgs) (firstArgument rightArgs))"

text \<open>
  Functions that call their own memoized version.  The nested call runs the same function on
  arguments, or in a state, where it takes a branch that does not call again; that branch is
  given first.

  \<^verbatim>\<open>const f = memoize(x => { calls++; return 0 })\<close> is the branch without a nested
  call of the three functions below.
\<close>

definition countingZero :: "(string, val, nat) wrapped" where
  "countingZero args st =
     (case st of (cache, calls) \<Rightarrow> (Inr (Number (Finite 0)), cache, Suc calls))"

text \<open>
  The result of a function that calls \<open>f\<close> and then goes on with \<open>after\<close>: an exception
  of the nested call, also the stack overflow of its lookup, is not caught.
\<close>

fun afterNested ::
  "(val \<Rightarrow> string + val) \<Rightarrow> (string, val) outcome \<times> val cache \<times> nat \<Rightarrow>
     (string + val) \<times> val cache \<times> nat" where
  "afterNested after (Returned v, st) = (after v, st)"
| "afterNested after (Threw x, st) = (Inl x, st)"
| "afterNested after (LookupFailed, st) = (Inl ''RangeError'', st)"

text \<open>
  \<^verbatim>\<open>const f = memoize(x => { calls++; if (x === 1) { f(0); throw new Error() } return 0 })\<close>
\<close>

definition throwAfterNested ::
  "nat \<Rightarrow> heap \<Rightarrow> comparisonFnType option \<Rightarrow> (string, val, nat) wrapped" where
  "throwAfterNested n h comparisonFn args st =
     (case st of (cache, calls) \<Rightarrow>
        if strict_eq (firstArgument args) (Number (Finite 1)) then
          afterNested (\<lambda>v. Inl ''Error'')
            (memoizedFn n h comparisonFn countingZero [Number (Finite 0)] (cache, Suc calls))
        else countingZero args (cache, calls))"

text \<open>
  \<^verbatim>\<open>const f = memoize(x => { calls++; if (calls > 1) return 0; f(x); return 1 })\<close>
\<close>

definition reenterOnce ::
  "nat \<Rightarrow> heap \<Rightarrow> comparisonFnType option \<Rightarrow> (string, val, nat) wrapped" where
  "reenterOnce n h comparisonFn args st =
     (case st of (cache, calls) \<Rightarrow>
        if calls > 0 then countingZero args (cache, calls)
        else
          afterNested (\<lambda>v. Inr (Number (Finite 1)))
            (memoizedFn n h comparisonFn countingZero args (cache, Suc calls)))"

text \<open>
  \<^verbatim>\<open>const f = memoize(x => { calls++; if (calls > 1) return 0; f(x); throw new Error() })\<close>
\<close>

definition throwAfterReentry ::
  "nat \<Rightarrow> heap \<Rightarrow> comparisonFnType option \<Rightarrow> (string, val, nat) wrapped" where
  "throwAfterReentry n h comparisonFn args st =
     (case st of (cache, calls) \<Rightarrow>
        if calls > 0 then countingZero args (cache, calls)
        else
          afterNested (\<lambda>v. Inl ''Error'')
            (memoizedFn n h comparisonFn countingZero args (cache, Suc calls)))"

text \<open>The cache after the single call \<^verbatim>\<open>f(1)\<close> of the second of these functions.\<close>

definition reentered :: "val cache" where
  "reentered =
     [\<lparr>key = [Number (Finite 1)], value = Number (Finite 1)\<rparr>,
      \<lparr>key = [Number (Finite 1)], value = Number (Finite 0)\<rparr>]"

text \<open>
  The recursive factorial of the repository's tests, for finite numbers:
  \<^verbatim>\<open>const f = memoize(n => { if (!Number.isFinite(n)) throw new TypeError();
  calculations++; return n <= 1 ? 1 : n * f(n - 1) }, comparisonFn)\<close>.
  The recursion goes through the memoized function to any depth, so the first argument is
  the depth of the call stack that is left; the nested call runs with one frame less, and
  the engine throws when no frame is left.
\<close>

fun times :: "real \<Rightarrow> val \<Rightarrow> string + val" where
  "times x (Number (Finite y)) = Inr (Number (Finite (x * y)))"
| "times x v = Inr (Number NaN)"

primrec factorialFn ::
  "nat \<Rightarrow> nat \<Rightarrow> heap \<Rightarrow> comparisonFnType option \<Rightarrow> (string, val, nat) wrapped" where
  "factorialFn 0 n h comparisonFn args st = (Inl ''RangeError'', st)"
| "factorialFn (Suc stack) n h comparisonFn args st =
     (case st of (cache, calculations) \<Rightarrow>
        (case firstArgument args of
           Number (Finite x) \<Rightarrow>
             if x \<le> 1 then (Inr (Number (Finite 1)), cache, Suc calculations)
             else
               afterNested (times x)
                 (memoizedFn n h comparisonFn (factorialFn stack n h comparisonFn)
                    [Number (Finite (x - 1))] (cache, Suc calculations))
         | _ \<Rightarrow> (Inl ''TypeError'', cache, calculations)))"

section \<open>Properties of the comparator\<close>

subsection \<open>Depth of recursion\<close>

lemma every_mono:
  assumes "\<And>x b. x \<in> set xs \<Longrightarrow> f x = Some b \<Longrightarrow> g x = Some b"
    and "every f xs = Some b"
  shows "every g xs = Some b"
  using assms
proof (induction xs)
  case Nil
  then show ?case by simp
next
  case (Cons x xs)
  show ?case
  proof (cases "f x")
    case None
    with Cons.prems(2) show ?thesis by simp
  next
    case (Some c)
    then have gx: "g x = Some c" using Cons.prems(1) by simp
    show ?thesis
    proof (cases c)
      case True
      with Some gx Cons show ?thesis by simp
    next
      case False
      with Some gx Cons.prems(2) show ?thesis by simp
    qed
  qed
qed

lemma compareArrays_mono:
  assumes "\<And>l r b. f l r = Some b \<Longrightarrow> g l r = Some b"
    and "compareArrays f xs ys = Some b"
  shows "compareArrays g xs ys = Some b"
proof (cases "length xs = length ys")
  case True
  with assms(2) have "every (\<lambda>(l, r). f l r) (zip xs ys) = Some b"
    by (simp add: compareArrays_def)
  then have "every (\<lambda>(l, r). g l r) (zip xs ys) = Some b"
    by (rule every_mono [rotated]) (auto dest: assms(1))
  with True show ?thesis by (simp add: compareArrays_def)
next
  case False
  with assms(2) show ?thesis by (simp add: compareArrays_def)
qed

text \<open>A result does not depend on how much more depth is available.\<close>

lemma compareValues_Suc:
  "compareValues n h l r = Some b \<Longrightarrow> compareValues (Suc n) h l r = Some b"
proof (induction n arbitrary: l r b)
  case 0
  then show ?case by simp
next
  case (Suc n)
  have arr: "\<And>xs ys c. compareArrays (compareValues n h) xs ys = Some c \<Longrightarrow>
      compareArrays (compareValues (Suc n) h) xs ys = Some c"
    by (erule compareArrays_mono [rotated]) (rule Suc.IH)
  have evM: "\<And>es xs c.
      every (\<lambda>(k, v). compareValues n h v (mapGet es k)) xs = Some c \<Longrightarrow>
      every (\<lambda>(k, v). compareValues (Suc n) h v (mapGet es k)) xs = Some c"
    by (erule every_mono [rotated]) (auto dest: Suc.IH)
  have evO: "\<And>xs c.
      every (\<lambda>(k, v). compareValues n h v (getProp h r k)) xs = Some c \<Longrightarrow>
      every (\<lambda>(k, v). compareValues (Suc n) h v (getProp h r k)) xs = Some c"
    by (erule every_mono [rotated]) (auto dest: Suc.IH)
  note step1 = compareValues.simps(2) [of n h l r]
  note step2 = compareValues.simps(2) [of "Suc n" h l r]
  show ?case
    using Suc.prems unfolding step1 step2
    by (auto split: if_splits option.splits bool.splits dest: arr evM evO
        simp del: compareValues.simps)
qed

lemma compareValues_fuel:
  "compareValues n h l r = Some b \<Longrightarrow> n \<le> m \<Longrightarrow> compareValues m h l r = Some b"
  by (induction m) (auto simp: le_Suc_eq dest: compareValues_Suc simp del: compareValues.simps)

subsection \<open>Identity and primitives\<close>

lemma compareValues_same:
  "x \<noteq> Number NaN \<Longrightarrow> compareValues n h x x = (if n = 0 then None else Some True)"
  by (cases n) (simp_all add: strict_eq_def)

lemma compareValues_NaN_right:
  "compareValues n h y (Number NaN) = (if n = 0 then None else Some False)"
  by (cases n; cases y) (simp_all add: strict_eq_def)

subsection \<open>The repository's tests\<close>

text \<open>The model gives what the tests of the comparator expect on these values.\<close>

lemma repository_tests:
  "compareValues 1 testValues Undefined Undefined = Some True"
  "compareValues 1 testValues Undefined Null = Some False"
  "compareValues 1 testValues Null (Ref 80) = Some False"
  "compareValues 2 testValues (Ref 80) (Ref 81) = Some True"
  "compareValues 2 testValues (Ref 80) (Ref 82) = Some False"
  "compareValues 3 testValues (Ref 83) (Ref 84) = Some True"
  "compareValues 3 testValues (Ref 84) (Ref 83) = Some True"
  "compareValues 3 testValues (Ref 85) (Ref 86) = Some True"
  "compareValues 3 testValues (Ref 87) (Ref 88) = Some True"
  by code_simp+

subsection \<open>Two different plain objects\<close>

lemma compareValues_plain:
  assumes "h a = PlainObj ps" and "h b = PlainObj qs" and "a \<noteq> b"
  shows "compareValues (Suc n) h (Ref a) (Ref b) =
    (if length ps \<noteq> length qs then Some False
     else
       (case compareArrays (compareValues n h)
               (map Str (sort (map fst ps))) (map Str (sort (map fst qs))) of
          None \<Rightarrow> None
        | Some False \<Rightarrow> Some False
        | Some True \<Rightarrow>
            every (\<lambda>(k, v). compareValues n h v
                     (case map_of qs k of Some x \<Rightarrow> x | None \<Rightarrow> Undefined)) ps))"
  using assms
  by (simp add: strict_eq_def objectKeys_def getProp_def
      cong: option.case_cong bool.case_cong)

subsection \<open>Heaps without cycles\<close>

lemma child_depth:
  "acyclic rank h \<Longrightarrow> v \<in> set (children (h a)) \<Longrightarrow> depth rank v \<le> rank a"
proof (cases v)
  case (Ref b)
  assume "acyclic rank h" and "v \<in> set (children (h a))"
  with Ref have "rank b < rank a" unfolding acyclic_def by blast
  with Ref show ?thesis by simp
qed simp_all

lemma every_returns:
  "(\<And>x. x \<in> set xs \<Longrightarrow> f x \<noteq> None) \<Longrightarrow> every f xs \<noteq> None"
  by (induction xs) (auto split: option.splits bool.splits)

lemma compareArrays_returns:
  assumes "\<And>l r. l \<in> set xs \<Longrightarrow> cmp l r \<noteq> None"
  shows "compareArrays cmp xs ys \<noteq> None"
proof (cases "length xs = length ys")
  case True
  have "every (\<lambda>(l, r). cmp l r) (zip xs ys) \<noteq> None"
  proof (rule every_returns)
    fix p assume "p \<in> set (zip xs ys)"
    then have "fst p \<in> set xs" by (metis set_zip_leftD prod.collapse)
    then have "cmp (fst p) (snd p) \<noteq> None" by (rule assms)
    then show "(case p of (l, r) \<Rightarrow> cmp l r) \<noteq> None" by (simp add: split_def)
  qed
  with True show ?thesis by (simp add: compareArrays_def)
next
  case False
  then show ?thesis by (simp add: compareArrays_def)
qed

lemma compareValues_primitive_left:
  "isPrimitive l \<Longrightarrow> compareValues (Suc n) h l r \<noteq> None"
  by (cases l; cases r) (auto simp: strict_eq_def)

lemma arrayElems_children: "set (arrayElems h (Ref a)) \<subseteq> set (children (h a))"
  by (cases "h a") auto

lemma mapEntries_children:
  "set (map fst (mapEntries h (Ref a))) \<subseteq> set (children (h a))"
  "set (map snd (mapEntries h (Ref a))) \<subseteq> set (children (h a))"
  by (cases "h a"; simp)+

lemma objectEntries_children:
  "set (map snd (objectEntries h (Ref a))) \<subseteq> set (children (h a))"
  by (cases "h a") (auto dest: set_zip_rightD)

text \<open>
  On a heap without cycles the comparator returns: a depth of recursion above the depth of
  the left value suffices, whatever the right value is.
\<close>

lemma compareValues_returns:
  assumes ac: "acyclic rank h"
  shows "depth rank l < n \<Longrightarrow> compareValues n h l r \<noteq> None"
proof (induction n arbitrary: l r)
  case 0
  then show ?case by simp
next
  case (Suc n)
  show ?case
  proof (cases "isPrimitive l")
    case True
    then show ?thesis by (rule compareValues_primitive_left)
  next
    case False
    then obtain a where l: "l = Ref a" by (cases l) auto
    with Suc.prems have rk: "rank a < n" by simp
    have kids: "compareValues n h v r' \<noteq> None" if "v \<in> set (children (h a))" for v r'
      using child_depth [OF ac that] rk by (intro Suc.IH) simp
    have strs: "compareValues n h (Str s) r' \<noteq> None" for s r'
      using rk by (intro Suc.IH) simp
    have arr: "compareArrays (compareValues n h) (arrayElems h l) ys \<noteq> None" for ys
      unfolding l using arrayElems_children [of h a]
      by (intro compareArrays_returns kids) blast
    have keysM: "compareArrays (compareValues n h) (map fst (mapEntries h l)) ys \<noteq> None" for ys
      unfolding l using mapEntries_children(1) [of h a]
      by (intro compareArrays_returns kids) blast
    have valsM: "every (\<lambda>(k, v). compareValues n h v (mapGet es k)) (mapEntries h l) \<noteq> None"
      for es
    proof (rule every_returns)
      fix p assume "p \<in> set (mapEntries h l)"
      then have "snd p \<in> set (map snd (mapEntries h (Ref a)))" unfolding l by simp
      with mapEntries_children(2) [of h a] have "snd p \<in> set (children (h a))" by blast
      then have "compareValues n h (snd p) (mapGet es (fst p)) \<noteq> None" by (rule kids)
      then show "(case p of (k, v) \<Rightarrow> compareValues n h v (mapGet es k)) \<noteq> None"
        by (simp add: split_def)
    qed
    have keysO: "compareArrays (compareValues n h) (map Str ks) ys \<noteq> None" for ks ys
    proof (rule compareArrays_returns)
      fix v r' assume "v \<in> set (map Str ks)"
      then obtain s where "v = Str s" by auto
      then show "compareValues n h v r' \<noteq> None" using strs by simp
    qed
    have valsO: "every (\<lambda>(k, v). compareValues n h v (getProp h r k)) (objectEntries h l) \<noteq> None"
    proof (rule every_returns)
      fix p assume "p \<in> set (objectEntries h l)"
      then have "snd p \<in> set (map snd (objectEntries h (Ref a)))" unfolding l by simp
      with objectEntries_children [of h a] have "snd p \<in> set (children (h a))" by blast
      then have "compareValues n h (snd p) (getProp h r (fst p)) \<noteq> None" by (rule kids)
      then show "(case p of (k, v) \<Rightarrow> compareValues n h v (getProp h r k)) \<noteq> None"
        by (simp add: split_def)
    qed
    from arr [of "arrayElems h r"] obtain b1 where b1:
      "compareArrays (compareValues n h) (arrayElems h l) (arrayElems h r) = Some b1"
      by blast
    from keysM [of "map fst (mapEntries h r)"] obtain b2 where b2:
      "compareArrays (compareValues n h) (map fst (mapEntries h l))
         (map fst (mapEntries h r)) = Some b2"
      by blast
    from valsM [of "mapEntries h r"] obtain b3 where b3:
      "every (\<lambda>(k, v). compareValues n h v (mapGet (mapEntries h r) k)) (mapEntries h l)
         = Some b3"
      by blast
    from keysO [of "sort (objectKeys h l)" "map Str (sort (objectKeys h r))"] obtain b4 where b4:
      "compareArrays (compareValues n h) (map Str (sort (objectKeys h l)))
         (map Str (sort (objectKeys h r))) = Some b4"
      by blast
    from valsO obtain b5 where b5:
      "every (\<lambda>(k, v). compareValues n h v (getProp h r k)) (objectEntries h l) = Some b5"
      by blast
    show ?thesis
      unfolding compareValues.simps(2) [of n h l r] b1 b2 b3 b4 b5
      by (cases b2; cases b4) (simp_all del: not_None_eq)
  qed
qed

lemma defaultComparison_returns:
  assumes "acyclic rank h" and "\<And>k. k \<in> set keyArgs \<Longrightarrow> depth rank k < n"
  shows "defaultComparison n h keyArgs args \<noteq> None"
  unfolding defaultComparison_def
  by (rule compareArrays_returns) (rule compareValues_returns [OF assms(1) assms(2)])

subsection \<open>Circular structures\<close>

lemma listNodes_at:
  "listNodes 21 = PlainObj [(''value'', Number (Finite 1)), (''previous'', Ref 23)]"
  "listNodes 22 = PlainObj [(''value'', Number (Finite 2)), (''previous'', Ref 21)]"
  "listNodes 23 = PlainObj [(''value'', Number (Finite 3)), (''previous'', Ref 22)]"
  "listNodes 31 = PlainObj [(''value'', Number (Finite 1)), (''previous'', Ref 33)]"
  "listNodes 32 = PlainObj [(''value'', Number (Finite 2)), (''previous'', Ref 31)]"
  "listNodes 33 = PlainObj [(''value'', Number (Finite 3)), (''previous'', Ref 32)]"
  by (simp_all add: listNodes_def)

lemma sort_listNode_keys: "sort [''value'', ''previous''] = [''previous'', ''value'']"
  by code_simp

lemma listNode_keys_equal:
  "compareArrays (compareValues n h)
      [Str ''previous'', Str ''value''] [Str ''previous'', Str ''value'']
      = (if n = 0 then None else Some True)"
  by (simp add: compareArrays_def compareValues_same)

text \<open>
  Comparing \<open>m3\<close> with \<open>n3\<close> asks for \<open>m2\<close> with \<open>n2\<close>, that for \<open>m1\<close> with
  \<open>n1\<close>, and that for \<open>m3\<close> with \<open>n3\<close> again: no depth suffices.
\<close>

lemma listNodes_loop:
  "compareValues n listNodes (Ref 23) (Ref 33) = None \<and>
   compareValues n listNodes (Ref 22) (Ref 32) = None \<and>
   compareValues n listNodes (Ref 21) (Ref 31) = None"
proof (induction n)
  case 0
  show ?case by simp
next
  case (Suc n)
  have a: "compareValues (Suc n) listNodes (Ref 23) (Ref 33) = None"
    using Suc
    by (simp add: compareValues_plain [OF listNodes_at(3) listNodes_at(6)]
        sort_listNode_keys listNode_keys_equal compareValues_same
        del: compareValues.simps(2) sort_key_simps)
  have b: "compareValues (Suc n) listNodes (Ref 22) (Ref 32) = None"
    using Suc
    by (simp add: compareValues_plain [OF listNodes_at(2) listNodes_at(5)]
        sort_listNode_keys listNode_keys_equal compareValues_same
        del: compareValues.simps(2) sort_key_simps)
  have c: "compareValues (Suc n) listNodes (Ref 21) (Ref 31) = None"
    using Suc
    by (simp add: compareValues_plain [OF listNodes_at(1) listNodes_at(4)]
        sort_listNode_keys listNode_keys_equal compareValues_same
        del: compareValues.simps(2) sort_key_simps)
  from a b c show ?case by blast
qed

text \<open>
  Claim C1 (the comparator returns on every pair of values, also on two separately built
  circular structures, which compare equal when they have the same shape and values).
  The code has no record of the pairs under comparison: on the two circular lists of the
  repository's own test, \<^verbatim>\<open>compareValues(m3, n3)\<close> yields no result at any depth of
  recursion, where the test expects \<^verbatim>\<open>true\<close>.  (It does return on every heap
  without cycles, by \<open>compareValues_returns\<close>, and on a value compared with itself, by
  the identity test.)
\<close>

theorem compareValues_circular_no_result:
  "compareValues n listNodes (Ref 23) (Ref 33) = None"
  using listNodes_loop [of n] by blast

subsection \<open>Reflexivity\<close>

text \<open>
  Claim C3 (reflexivity), as the code has it: \<^verbatim>\<open>compareValues(x, x)\<close> is decided by
  the identity test of line 31 alone, so it is \<^verbatim>\<open>true\<close> for every value, circular
  structures included, except the number \<open>NaN\<close>, for which it is \<^verbatim>\<open>false\<close>.
\<close>

theorem compareValues_self:
  "compareValues (Suc n) h x x = Some (x \<noteq> Number NaN)"
  by (cases "x = Number NaN") (simp_all add: strict_eq_def)

text \<open>Claim C3 as stated fails at \<open>NaN\<close>.\<close>

theorem compareValues_NaN_counterexample:
  "compareValues (Suc 0) listNodes (Number NaN) (Number NaN) = Some False"
  by (simp add: strict_eq_def)

subsection \<open>Objects without own enumerable keys\<close>

text \<open>
  Two objects that are not both arrays and not both \<^verbatim>\<open>Map\<close>s go through the branch
  for plain objects.  When neither has an own enumerable key, they compare equal: so do any
  two regular expressions, any two dates, and the empty array and any \<^verbatim>\<open>Map\<close>.
\<close>

lemma compareValues_keyless:
  assumes "objectEntries h (Ref a) = []" and "objectEntries h (Ref b) = []"
    and "typeof h (Ref a) = TObject" and "typeof h (Ref b) = TObject"
    and "\<not> (isArray h (Ref a) \<and> isArray h (Ref b))"
    and "\<not> (isMap h (Ref a) \<and> isMap h (Ref b))"
  shows "compareValues (Suc (Suc n)) h (Ref a) (Ref b) = Some True"
proof (cases "a = b")
  case True
  then show ?thesis by (simp add: strict_eq_def)
next
  case False
  then have ne: "\<not> strict_eq (Ref a) (Ref b)" by (simp add: strict_eq_def)
  from assms(5) have arr: "(isArray h (Ref a) \<and> isArray h (Ref b)) = False" by blast
  from assms(6) have mp: "(isMap h (Ref a) \<and> isMap h (Ref b)) = False" by blast
  have keys: "objectKeys h (Ref a) = []" "objectKeys h (Ref b) = []"
    using assms(1,2) by (simp_all add: objectKeys_def)
  show ?thesis
    unfolding compareValues.simps(2) [of "Suc n"] arr mp keys assms(1-4)
    using ne by (simp add: compareArrays_def del: compareValues.simps)
qed

lemma compareValues_regexps:
  "h a = RegExpObj s f \<Longrightarrow> h b = RegExpObj s' f' \<Longrightarrow>
     compareValues (Suc (Suc n)) h (Ref a) (Ref b) = Some True"
  by (rule compareValues_keyless) simp_all

lemma compareValues_dates:
  "h a = DateObj t \<Longrightarrow> h b = DateObj t' \<Longrightarrow>
     compareValues (Suc (Suc n)) h (Ref a) (Ref b) = Some True"
  by (rule compareValues_keyless) simp_all

lemma compareValues_empty_array_map:
  "h a = ArrayObj [] \<Longrightarrow> h b = MapObj es \<Longrightarrow>
     compareValues (Suc (Suc n)) h (Ref a) (Ref b) = Some True \<and>
     compareValues (Suc (Suc n)) h (Ref b) (Ref a) = Some True"
  by (intro conjI; rule compareValues_keyless) simp_all

text \<open>
  Claim C5 (an array and a \<^verbatim>\<open>Map\<close>, or a \<^verbatim>\<open>Map\<close> and a plain object, never compare
  equal).  When exactly one side is a \<^verbatim>\<open>Map\<close> the code takes the branch for plain
  objects, which looks at \<^verbatim>\<open>Object.keys\<close> only: the empty array and the empty object
  both compare equal to \<^verbatim>\<open>new Map([[1, 2]])\<close>, in either order.
\<close>

theorem compareValues_empty_array_equals_map:
  "compareValues 2 mixedKinds (Ref 40) (Ref 41) = Some True \<and>
   compareValues 2 mixedKinds (Ref 41) (Ref 40) = Some True \<and>
   compareValues 2 mixedKinds (Ref 41) (Ref 42) = Some True \<and>
   compareValues 2 mixedKinds (Ref 42) (Ref 41) = Some True"
  by code_simp

text \<open>
  Claim C6 (regular expressions compare by source and flags, dates by their instant,
  functions by identity).  The code has no case for regular expressions or dates: both have
  no own enumerable keys and go through the branch for plain objects, so \<^verbatim>\<open>/abc/\<close>
  equals \<^verbatim>\<open>/abcd/\<close> and two different dates are equal, where the repository's tests
  expect \<^verbatim>\<open>false\<close>.  Two different functions are unequal, as claimed.
\<close>

theorem compareValues_regexps_dates_all_equal:
  "compareValues 2 mixedKinds (Ref 50) (Ref 51) = Some True \<and>
   compareValues 2 mixedKinds (Ref 52) (Ref 53) = Some True \<and>
   compareValues 2 mixedKinds (Ref 54) (Ref 55) = Some False"
  by code_simp

subsection \<open>Key order\<close>














section \<open>Properties of the cache\<close>

subsection \<open>The lookup\<close>

lemma findIndex_range:
  "findIndex p xs = Some i \<Longrightarrow> i = - 1 \<or> (0 \<le> i \<and> nat i < length xs)"
proof (induction xs arbitrary: i)
  case Nil
  then show ?case by simp
next
  case (Cons x xs)
  then show ?case
    by (fastforce split: option.splits bool.splits if_splits)
qed

lemma findIndex_miss:
  "findIndex p xs = Some (- 1) \<longleftrightarrow> (\<forall>x\<in>set xs. p x = Some False)"
proof (induction xs)
  case Nil
  show ?case by simp
next
  case (Cons x xs)
  show ?case
  proof (cases "p x")
    case None
    then show ?thesis by auto
  next
    case (Some b)
    show ?thesis
    proof (cases b)
      case True
      with Some show ?thesis by auto
    next
      case False
      with Some Cons.IH show ?thesis
        by (auto split: option.splits dest: findIndex_range)
    qed
  qed
qed

lemma findIndex_hit:
  "findIndex p xs = Some i \<Longrightarrow> i \<noteq> - 1 \<Longrightarrow>
     0 \<le> i \<and> nat i < length xs \<and> p (xs ! nat i) = Some True \<and>
     (\<forall>j < nat i. p (xs ! j) = Some False)"
proof (induction xs arbitrary: i)
  case Nil
  then show ?case by simp
next
  case (Cons x xs)
  show ?case
  proof (cases "p x")
    case None
    with Cons.prems show ?thesis by simp
  next
    case (Some b)
    show ?thesis
    proof (cases b)
      case True
      with Some Cons.prems show ?thesis by auto
    next
      case False
      have px: "p x = Some False" using Some False by simp
      from Cons.prems(1) obtain i' where i'1: "findIndex p xs = Some i'"
        unfolding findIndex.simps px by (cases "findIndex p xs") simp_all
      from Cons.prems(1) have eq: "i = (if i' = - 1 then - 1 else i' + 1)"
        unfolding findIndex.simps px i'1 by simp
      from eq Cons.prems(2) have i'2: "i' \<noteq> - 1" by (cases "i' = - 1") simp_all
      from eq i'2 have i'3: "i = i' + 1" by simp
      note i' = i'1 i'2 i'3
      from Cons.IH [OF i'(1,2)] have IH: "0 \<le> i'" "nat i' < length xs"
        "p (xs ! nat i') = Some True" "\<forall>j < nat i'. p (xs ! j) = Some False"
        by auto
      have n: "nat i = Suc (nat i')" using i'(3) IH(1) by simp
      show ?thesis
        using IH False Some i'(3) unfolding n
        by (auto simp: nth_Cons less_Suc_eq_0_disj split: nat.splits)
    qed
  qed
qed




lemma activePredicate_pinned:
  "comparisonFn = Some pred \<or> comparisonFn = None \<and> pred = compareArrays (compareValues n h) \<Longrightarrow>
     activePredicate n h comparisonFn = pred"
  by (auto simp: activePredicate_def defaultComparison_def fun_eq_iff)

lemma findCacheIndex_eq:
  "activePredicate n h comparisonFn = pred \<Longrightarrow>
     findCacheIndex n h comparisonFn cache args = findIndex (\<lambda>e. pred (key e) args) cache"
  by (simp add: findCacheIndex_def)

lemma findCacheIndex_miss:
  "activePredicate n h comparisonFn = pred \<Longrightarrow>
     findCacheIndex n h comparisonFn cache args = Some (- 1) \<longleftrightarrow>
       (\<forall>e\<in>set cache. pred (key e) args = Some False)"
  by (simp add: findCacheIndex_eq findIndex_miss)


lemma memoizedFn_miss:
  assumes "activePredicate n h comparisonFn = pred"
    and "\<forall>e\<in>set cache. pred (key e) args = Some False"
  shows "memoizedFn n h comparisonFn fn args (cache, s) =
    (case fn args (cache, s) of
       (Inl x, cache', s') \<Rightarrow> (Threw x, cache', s')
     | (Inr v, cache', s') \<Rightarrow> (Returned v, \<lparr>key = args, value = v\<rparr> # cache', s'))"
  using assms by (simp add: memoizedFn_def findCacheIndex_miss [symmetric])





lemma memoizedFn_throws:
  assumes "memoizedFn n h comparisonFn fn args (cache, s) = (Threw x, cache', s')"
  shows "findCacheIndex n h comparisonFn cache args = Some (- 1) \<and>
     fn args (cache, s) = (Inl x, cache', s')"
  using assms
  by (auto simp: memoizedFn_def split: option.splits if_splits prod.splits sum.splits)

subsection \<open>Functions that call their memoized version\<close>

text \<open>
  The nested calls in the definitions of the example functions run the branch of the function
  without a nested call.  They are calls of the memoized function itself: on the arguments,
  or in the state, of the nested call the function is that branch.
\<close>

lemma memoizedFn_same_fn:
  "fn args st = fn' args st \<Longrightarrow>
     memoizedFn n h comparisonFn fn args st = memoizedFn n h comparisonFn fn' args st"
  by (cases st) (auto simp: memoizedFn_def split: option.splits)

lemma throwAfterNested_nested:
  "memoizedFn n h comparisonFn (throwAfterNested n h comparisonFn) [Number (Finite 0)] st =
     memoizedFn n h comparisonFn countingZero [Number (Finite 0)] st"
  by (rule memoizedFn_same_fn) (cases st, simp add: throwAfterNested_def strict_eq_def)

lemma reenterOnce_nested:
  "memoizedFn n h comparisonFn (reenterOnce n h comparisonFn) args (cache, Suc calls) =
     memoizedFn n h comparisonFn countingZero args (cache, Suc calls)"
  by (rule memoizedFn_same_fn) (simp add: reenterOnce_def)

lemma throwAfterReentry_nested:
  "memoizedFn n h comparisonFn (throwAfterReentry n h comparisonFn) args (cache, Suc calls) =
     memoizedFn n h comparisonFn countingZero args (cache, Suc calls)"
  by (rule memoizedFn_same_fn) (simp add: throwAfterReentry_def)

text \<open>
  The factorial on a new memoized function: \<^verbatim>\<open>f(3)\<close> computes three factorials and
  leaves their entries, newest first; a second \<^verbatim>\<open>f(3)\<close> computes nothing.
\<close>

lemma factorialFn_run:
  "run 2 mixedKinds (Some sameFirstArgument) (factorialFn 5 2 mixedKinds (Some sameFirstArgument))
       1 [Call [Number (Finite 3)], Call [Number (Finite 3)]] ([], 0) =
     ([\<lparr>key = [Number (Finite 3)], value = Number (Finite 6)\<rparr>,
       \<lparr>key = [Number (Finite 2)], value = Number (Finite 2)\<rparr>,
       \<lparr>key = [Number (Finite 1)], value = Number (Finite 1)\<rparr>], 3)"
  by (simp add: memoizedFn_def findCacheIndex_def activePredicate_def sameFirstArgument_def
      strict_eq_def numeral_nat)

subsection \<open>Calls\<close>



text \<open>
  Claim C4 as stated (when \<open>fn\<close> throws, the cache is left exactly as it was before the
  call, and no entry is created for that argument list) fails for a function that calls its
  memoized version before it throws.  With
  \<^verbatim>\<open>const f = memoize(x => { calls++; if (x === 1) { f(0); throw new Error() } return 0 })\<close>
  the call \<^verbatim>\<open>f(1)\<close> on the empty cache throws and leaves the entry of the nested call
  \<^verbatim>\<open>f(0)\<close> in the cache.  With
  \<^verbatim>\<open>const f = memoize(x => { calls++; if (calls > 1) return 0; f(x); throw new Error() })\<close>
  the call \<^verbatim>\<open>f(1)\<close> throws and leaves an entry for its own argument list, which the
  next \<^verbatim>\<open>f(1)\<close> returns.
\<close>

theorem memoizedFn_throw_counterexample:
  "memoizedFn 2 mixedKinds None (throwAfterNested 2 mixedKinds None) [Number (Finite 1)]
       ([], 0) =
     (Threw ''Error'', [\<lparr>key = [Number (Finite 0)], value = Number (Finite 0)\<rparr>], 2) \<and>
   memoizedFn 2 mixedKinds None (throwAfterReentry 2 mixedKinds None) [Number (Finite 1)]
       ([], 0) =
     (Threw ''Error'', [\<lparr>key = [Number (Finite 1)], value = Number (Finite 0)\<rparr>], 2) \<and>
   memoizedFn 2 mixedKinds None (throwAfterReentry 2 mixedKinds None) [Number (Finite 1)]
       ([\<lparr>key = [Number (Finite 1)], value = Number (Finite 0)\<rparr>], 2) =
     (Returned (Number (Finite 0)),
      [\<lparr>key = [Number (Finite 1)], value = Number (Finite 0)\<rparr>], 2)"
proof -
  have 1: "memoizedFn 2 mixedKinds None (throwAfterNested 2 mixedKinds None)
       [Number (Finite 1)] ([], 0) =
     (Threw ''Error'', [\<lparr>key = [Number (Finite 0)], value = Number (Finite 0)\<rparr>], 2)"
    by (simp add: memoizedFn_def findCacheIndex_def throwAfterNested_def countingZero_def
        strict_eq_def)
  have 2: "memoizedFn 2 mixedKinds None (throwAfterReentry 2 mixedKinds None)
       [Number (Finite 1)] ([], 0) =
     (Threw ''Error'', [\<lparr>key = [Number (Finite 1)], value = Number (Finite 0)\<rparr>], 2)"
    by (simp add: memoizedFn_def findCacheIndex_def throwAfterReentry_def countingZero_def)
  have "defaultComparison 2 mixedKinds [Number (Finite 1)] [Number (Finite 1)] = Some True"
    by (simp add: defaultComparison_def compareArrays_def strict_eq_def numeral_2_eq_2)
  then have 3: "memoizedFn 2 mixedKinds None (throwAfterReentry 2 mixedKinds None)
       [Number (Finite 1)] ([\<lparr>key = [Number (Finite 1)], value = Number (Finite 0)\<rparr>], 2) =
     (Returned (Number (Finite 0)),
      [\<lparr>key = [Number (Finite 1)], value = Number (Finite 0)\<rparr>], 2)"
    by (simp add: memoizedFn_def findCacheIndex_def activePredicate_def
        del: compareValues.simps)
  from 1 2 3 show ?thesis by blast
qed

text \<open>
  Claim C4, amended.  The predicate \<open>pred\<close> is the supplied \<^verbatim>\<open>comparisonFn\<close>
  or, when none is supplied, \<^verbatim>\<open>compareValues\<close> on the key and the argument array.
  When no entry matches and \<open>fn\<close> throws \<open>x\<close>, the call throws
  \<open>x\<close> and adds no entry: the cache is exactly as \<open>fn\<close> left it, which is as it was
  before the call when \<open>fn\<close> did not change it.  Conversely, whenever a call throws, no
  entry matched, the exception is the one \<open>fn\<close> threw on these arguments, and the cache
  and the state are the ones \<open>fn\<close> left.
\<close>

theorem memoizedFn_throw_adds_no_entry:
  "comparisonFn = Some pred \<or> comparisonFn = None \<and> pred = compareArrays (compareValues n h) \<Longrightarrow>
   ((\<forall>e\<in>set cache. pred (key e) args = Some False) \<and>
      fn args (cache, s) = (Inl x, cache', s') \<longrightarrow>
      memoizedFn n h comparisonFn fn args (cache, s) = (Threw x, cache', s')) \<and>
   ((\<forall>e\<in>set cache. pred (key e) args = Some False) \<and>
      fn args (cache, s) = (Inl x, cache, s') \<longrightarrow>
      memoizedFn n h comparisonFn fn args (cache, s) = (Threw x, cache, s')) \<and>
   (memoizedFn n h comparisonFn fn args (cache, s) = (Threw x, cache', s') \<longrightarrow>
      (\<forall>e\<in>set cache. pred (key e) args = Some False) \<and>
      fn args (cache, s) = (Inl x, cache', s'))"
proof (intro conjI impI)
  assume "comparisonFn = Some pred \<or>
    comparisonFn = None \<and> pred = compareArrays (compareValues n h)"
  then have P: "activePredicate n h comparisonFn = pred" by (rule activePredicate_pinned)
  {
    assume "(\<forall>e\<in>set cache. pred (key e) args = Some False) \<and>
      fn args (cache, s) = (Inl x, cache', s')"
    then show "memoizedFn n h comparisonFn fn args (cache, s) = (Threw x, cache', s')"
      by (simp add: memoizedFn_miss [OF P])
  next
    assume "(\<forall>e\<in>set cache. pred (key e) args = Some False) \<and>
      fn args (cache, s) = (Inl x, cache, s')"
    then show "memoizedFn n h comparisonFn fn args (cache, s) = (Threw x, cache, s')"
      by (simp add: memoizedFn_miss [OF P])
  next
    assume a: "memoizedFn n h comparisonFn fn args (cache, s) = (Threw x, cache', s')"
    from memoizedFn_throws [OF a]
    show "\<forall>e\<in>set cache. pred (key e) args = Some False"
      by (simp add: findCacheIndex_miss [OF P])
    from memoizedFn_throws [OF a]
    show "fn args (cache, s) = (Inl x, cache', s')" by simp
  }
qed

text \<open>
  The amended claim C4 on the cache of squares: \<open>squareFn\<close> throws on a string and leaves
  the cache as it is; the function above throws after its nested call has added an entry.
\<close>

theorem memoizedFn_throw_adds_no_entry_witness:
  "memoizedFn 2 mixedKinds None squareFn [Str ''two''] (squares, 5) =
     (Threw ''TypeError'', squares, 6) \<and>
   memoizedFn 2 mixedKinds None (throwAfterNested 2 mixedKinds None) [Number (Finite 1)]
       (squares, 5) =
     (Threw ''Error'',
      \<lparr>key = [Number (Finite 0)], value = Number (Finite 0)\<rparr> # squares, 7)"
proof -
  let ?D = "compareArrays (compareValues 2 mixedKinds)"
  have miss: "\<forall>e\<in>set squares. ?D (key e) [Str ''two''] = Some False"
    "\<forall>e\<in>set squares. ?D (key e) [Number (Finite 1)] = Some False"
    "\<forall>e\<in>set squares. ?D (key e) [Number (Finite 0)] = Some False"
    by (simp_all add: squares_def compareArrays_def strict_eq_def numeral_2_eq_2)
  have P: "activePredicate 2 mixedKinds None = ?D"
    by (rule activePredicate_pinned) simp
  have fn1: "squareFn [Str ''two''] (squares, 5) = (Inl ''TypeError'', squares, 6)"
    by (simp add: squareFn_def)
  have "memoizedFn 2 mixedKinds None countingZero [Number (Finite 0)] (squares, 6) =
      (Returned (Number (Finite 0)),
       \<lparr>key = [Number (Finite 0)], value = Number (Finite 0)\<rparr> # squares, 7)"
    using miss(3) by (simp add: memoizedFn_miss [OF P] countingZero_def)
  then have fn2: "throwAfterNested 2 mixedKinds None [Number (Finite 1)] (squares, 5) =
      (Inl ''Error'', \<lparr>key = [Number (Finite 0)], value = Number (Finite 0)\<rparr> # squares, 7)"
    by (simp add: throwAfterNested_def strict_eq_def)
  have 1: "memoizedFn 2 mixedKinds None squareFn [Str ''two''] (squares, 5) =
     (Threw ''TypeError'', squares, 6)"
    using memoizedFn_throw_adds_no_entry [where n = 2 and h = mixedKinds
        and comparisonFn = None and pred = ?D and cache = squares and args = "[Str ''two'']"
        and fn = squareFn and s = 5 and x = "''TypeError''" and s' = 6 and cache' = squares,
        OF disjI2, OF conjI, OF refl refl, THEN conjunct2, THEN conjunct1] miss(1) fn1
    by blast
  have 2: "memoizedFn 2 mixedKinds None (throwAfterNested 2 mixedKinds None)
       [Number (Finite 1)] (squares, 5) =
     (Threw ''Error'',
      \<lparr>key = [Number (Finite 0)], value = Number (Finite 0)\<rparr> # squares, 7)"
    using memoizedFn_throw_adds_no_entry [where n = 2 and h = mixedKinds
        and comparisonFn = None and pred = ?D and cache = squares
        and args = "[Number (Finite 1)]"
        and fn = "throwAfterNested 2 mixedKinds None" and s = 5 and x = "''Error''"
        and s' = 7
        and cache' = "\<lparr>key = [Number (Finite 0)], value = Number (Finite 0)\<rparr> # squares",
        OF disjI2, OF conjI, OF refl refl, THEN conjunct1] miss(2) fn2
    by blast
  from 1 2 show ?thesis by blast
qed

subsection \<open>The invariant\<close>

lemma matching_Cons:
  "matching pred (e # cache) args =
     (if pred (key e) args = Some True then e # matching pred cache args
      else matching pred cache args)"
  by (simp add: matching_def)

lemma matching_remove_le:
  "length (matching pred (take i cache @ drop (Suc i) cache) args)
     \<le> length (matching pred cache args)"
proof (cases "i < length cache")
  case True
  then have "cache = take i cache @ cache ! i # drop (Suc i) cache"
    by (rule id_take_nth_drop)
  then have "matching pred cache args =
      matching pred (take i cache) args @ matching pred [cache ! i] args
        @ matching pred (drop (Suc i) cache) args"
    unfolding matching_def by (metis filter_append append_Cons append_Nil)
  then show ?thesis by (simp add: matching_def)
next
  case False
  then show ?thesis by simp
qed

lemma atMostOneMatch_remove:
  "atMostOneMatch pred cache \<Longrightarrow> atMostOneMatch pred (take i cache @ drop (Suc i) cache)"
  unfolding atMostOneMatch_def
  by (meson matching_remove_le le_trans)

lemma atMostOneMatch_insert:
  assumes st: "symmetricTransitive pred"
    and inv: "atMostOneMatch pred cache"
    and miss: "\<forall>e\<in>set cache. pred (key e) args \<noteq> Some True"
  shows "atMostOneMatch pred (\<lparr>key = args, value = v\<rparr> # cache)"
  unfolding atMostOneMatch_def
proof
  fix q
  show "length (matching pred (\<lparr>key = args, value = v\<rparr> # cache) q) \<le> 1"
  proof (cases "pred args q = Some True")
    case True
    have "matching pred cache q = []"
    proof (rule ccontr)
      assume "matching pred cache q \<noteq> []"
      then obtain e where e: "e \<in> set cache" "pred (key e) q = Some True"
        unfolding matching_def by (auto simp: filter_empty_conv)
      from True st have "pred q args = Some True"
        unfolding symmetricTransitive_def by blast
      with e(2) st have "pred (key e) args = Some True"
        unfolding symmetricTransitive_def by blast
      with miss e(1) show False by auto
    qed
    with True show ?thesis by (simp add: matching_Cons)
  next
    case False
    with inv show ?thesis by (simp add: matching_Cons atMostOneMatch_def)
  qed
qed

lemma keepsInvariant_unchanged:
  assumes "\<And>args st. fst (snd (fn args st)) = fst st"
  shows "keepsInvariant pred fn"
  unfolding keepsInvariant_def
proof (intro allI impI)
  fix args cache s res cache' s'
  assume a: "atMostOneMatch pred cache \<and>
    (\<forall>e\<in>set cache. pred (key e) args = Some False) \<and> fn args (cache, s) = (res, cache', s')"
  from assms [of args "(cache, s)"] a have "cache' = cache" by simp
  with a show "atMostOneMatch pred cache' \<and>
      (\<forall>v. res = Inr v \<longrightarrow> (\<forall>e\<in>set cache'. pred (key e) args \<noteq> Some True))"
    by simp
qed

lemma memoizedFn_preserves:
  assumes P: "activePredicate n h comparisonFn = pred"
    and st: "symmetricTransitive pred" and keeps: "keepsInvariant pred fn"
    and inv: "atMostOneMatch pred cache"
  shows "atMostOneMatch pred (fst (snd (memoizedFn n h comparisonFn fn args (cache, s))))"
proof (cases "findCacheIndex n h comparisonFn cache args = Some (- 1)")
  case True
  then have miss: "\<forall>e\<in>set cache. pred (key e) args = Some False"
    by (simp add: findCacheIndex_miss [OF P])
  obtain res cache' s' where fn: "fn args (cache, s) = (res, cache', s')"
    by (cases "fn args (cache, s)")
  from keeps inv miss fn have inv': "atMostOneMatch pred cache'"
    and none: "\<And>v. res = Inr v \<Longrightarrow> \<forall>e\<in>set cache'. pred (key e) args \<noteq> Some True"
    unfolding keepsInvariant_def by blast+
  show ?thesis
  proof (cases res)
    case (Inl x)
    with fn miss inv' show ?thesis by (simp add: memoizedFn_miss [OF P])
  next
    case (Inr v)
    from atMostOneMatch_insert [OF st inv' none [OF Inr], of v] fn Inr miss
    show ?thesis by (simp add: memoizedFn_miss [OF P])
  qed
next
  case False
  with inv show ?thesis
    by (auto simp: memoizedFn_def split: option.splits)
qed

lemma step_preserves:
  assumes P: "activePredicate n h comparisonFn = pred"
    and st: "symmetricTransitive pred" and keeps: "keepsInvariant pred fn"
    and inv: "atMostOneMatch pred cache"
  shows "atMostOneMatch pred (fst (step n h comparisonFn fn fnLength operation (cache, s)))"
proof (cases operation)
  case (Call args)
  with memoizedFn_preserves [OF P st keeps inv, of args s] show ?thesis by simp
next
  case (ClearEntry args)
  with inv show ?thesis
    by (auto simp: clearEntry_def atMostOneMatch_remove split: option.splits)
next
  case ClearAll
  then show ?thesis by (simp add: clearAll_def atMostOneMatch_def matching_def)
qed

lemma run_preserves:
  assumes P: "activePredicate n h comparisonFn = pred"
    and st: "symmetricTransitive pred" and keeps: "keepsInvariant pred fn"
  shows "atMostOneMatch pred (fst state) \<Longrightarrow>
     atMostOneMatch pred (fst (run n h comparisonFn fn fnLength ops state))"
proof (induction ops arbitrary: state)
  case Nil
  then show ?case by simp
next
  case (Cons operation ops)
  obtain cache s where state: "state = (cache, s)" by (cases state)
  from Cons.prems state
  have "atMostOneMatch pred (fst (step n h comparisonFn fn fnLength operation state))"
    using step_preserves [OF P st keeps, of cache fnLength operation s] by simp
  from Cons.IH [OF this] show ?case by simp
qed

lemma sameArity_equivalence: "equivalenceRelation sameArity"
  by (simp add: equivalenceRelation_def sameArity_def)

lemma sameFirstArgument_symmetricTransitive: "symmetricTransitive sameFirstArgument"
  by (auto simp: symmetricTransitive_def sameFirstArgument_def strict_eq_def)

lemma squareFn_unchanged: "fst (snd (squareFn args st)) = fst st"
  by (cases st) (simp add: squareFn_def split: list.splits val.splits)

lemma memoizedFn_new_entries:
  assumes "memoizedFn n h comparisonFn fn args (cache, s) = (out, cache', s')"
  shows "cache' = cache \<or>
    (\<exists>res c t. fn args (cache, s) = (res, c, t) \<and>
       (cache' = c \<or> (\<exists>v. cache' = \<lparr>key = args, value = v\<rparr> # c)))"
proof -
  obtain res c t where fn: "fn args (cache, s) = (res, c, t)"
    by (cases "fn args (cache, s)")
  with assms show ?thesis
    by (auto simp: memoizedFn_def split: option.splits if_splits sum.splits)
qed

lemma factorialFn_new_entries:
  "factorialFn stack n h comparisonFn args (cache, s) = (res, cache', s') \<Longrightarrow>
     \<forall>e\<in>set cache'. e \<in> set cache \<or>
       (\<exists>x y. firstArgument args = Number (Finite x) \<and> key e = [Number (Finite y)] \<and> y < x)"
proof (induction stack arbitrary: args cache s res cache' s')
  case 0
  then show ?case by simp
next
  case (Suc stack)
  show ?case
  proof (cases "\<exists>x. firstArgument args = Number (Finite x) \<and> \<not> x \<le> 1")
    case False
    with Suc.prems have "cache' = cache"
      by (auto split: val.splits jsnumber.splits if_splits)
    then show ?thesis by simp
  next
    case True
    then obtain x where x: "firstArgument args = Number (Finite x)" "\<not> x \<le> 1" by blast
    let ?fn = "factorialFn stack n h comparisonFn"
    obtain out c t where nested:
      "memoizedFn n h comparisonFn ?fn [Number (Finite (x - 1))] (cache, Suc s) = (out, c, t)"
      by (cases "memoizedFn n h comparisonFn ?fn [Number (Finite (x - 1))] (cache, Suc s)")
    with Suc.prems x have "afterNested (times x) (out, c, t) = (res, cache', s')" by simp
    then have c: "c = cache'" by (cases out) auto
    from memoizedFn_new_entries [OF nested] c
    consider "cache' = cache"
      | r c2 t2 where "?fn [Number (Finite (x - 1))] (cache, Suc s) = (r, c2, t2)"
          "cache' = c2 \<or> (\<exists>v. cache' = \<lparr>key = [Number (Finite (x - 1))], value = v\<rparr> # c2)"
      by blast
    then show ?thesis
    proof cases
      case 1
      then show ?thesis by simp
    next
      case 2
      from Suc.IH [OF 2(1)]
      have "\<forall>e\<in>set c2. e \<in> set cache \<or> (\<exists>y. key e = [Number (Finite y)] \<and> y < x - 1)"
        by simp
      then have "\<forall>e\<in>set c2. e \<in> set cache \<or> (\<exists>y. key e = [Number (Finite y)] \<and> y < x)"
        by fastforce
      with 2(2) x(1) show ?thesis by auto
    qed
  qed
qed

lemma factorialFn_keepsInvariant:
  assumes P: "activePredicate n h comparisonFn = pred"
    and st: "symmetricTransitive pred"
    and smaller: "\<And>x y args. firstArgument args = Number (Finite x) \<Longrightarrow> y < x \<Longrightarrow>
      pred [Number (Finite y)] args \<noteq> Some True"
  shows "keepsInvariant pred (factorialFn stack n h comparisonFn)"
proof (induction stack)
  case 0
  show ?case by (simp add: keepsInvariant_def)
next
  case (Suc stack)
  show ?case
    unfolding keepsInvariant_def
  proof (intro allI impI)
    fix args and cache :: "val cache" and s res cache' s'
    assume a: "atMostOneMatch pred cache \<and>
      (\<forall>e\<in>set cache. pred (key e) args = Some False) \<and>
      factorialFn (Suc stack) n h comparisonFn args (cache, s) = (res, cache', s')"
    then have inv: "atMostOneMatch pred cache"
      and miss: "\<forall>e\<in>set cache. pred (key e) args = Some False"
      and fn: "factorialFn (Suc stack) n h comparisonFn args (cache, s) = (res, cache', s')"
      by blast+
    have none: "\<forall>e\<in>set cache'. pred (key e) args \<noteq> Some True"
    proof
      fix e
      assume "e \<in> set cache'"
      with factorialFn_new_entries [OF fn]
      consider "e \<in> set cache"
        | x y where "firstArgument args = Number (Finite x)" "key e = [Number (Finite y)]"
            "y < x"
        by blast
      then show "pred (key e) args \<noteq> Some True"
      proof cases
        case 1
        with miss show ?thesis by simp
      next
        case 2
        with smaller [of args x y] show ?thesis by simp
      qed
    qed
    have "atMostOneMatch pred cache'"
    proof (cases "\<exists>x. firstArgument args = Number (Finite x) \<and> \<not> x \<le> 1")
      case False
      with fn have "cache' = cache"
        by (auto split: val.splits jsnumber.splits if_splits)
      with inv show ?thesis by simp
    next
      case True
      then obtain x where x: "firstArgument args = Number (Finite x)" "\<not> x \<le> 1" by blast
      let ?fn = "factorialFn stack n h comparisonFn"
      obtain out c t where nested:
        "memoizedFn n h comparisonFn ?fn [Number (Finite (x - 1))] (cache, Suc s) =
           (out, c, t)"
        by (cases "memoizedFn n h comparisonFn ?fn [Number (Finite (x - 1))] (cache, Suc s)")
      with fn x have "afterNested (times x) (out, c, t) = (res, cache', s')" by simp
      then have c: "c = cache'" by (cases out) auto
      from memoizedFn_preserves [OF P st Suc.IH inv, of "[Number (Finite (x - 1))]" "Suc s"]
        nested c
      show ?thesis by simp
    qed
    with none show "atMostOneMatch pred cache' \<and>
        (\<forall>v. res = Inr v \<longrightarrow> (\<forall>e\<in>set cache'. pred (key e) args \<noteq> Some True))"
      by simp
  qed
qed

lemma factorialFn_keepsInvariant_custom:
  "keepsInvariant sameFirstArgument (factorialFn stack n h (Some sameFirstArgument))"
  by (rule factorialFn_keepsInvariant [OF _ sameFirstArgument_symmetricTransitive])
     (simp_all add: activePredicate_def sameFirstArgument_def strict_eq_def)

text \<open>
  The default comparison is symmetric and transitive on a heap whose objects are all empty.
  It is not on every heap: two different \<^verbatim>\<open>Map\<close>s are both equal to the empty
  object.
\<close>

lemma every_total:
  "every (\<lambda>(l, r). Some (R l r)) zs = Some (\<forall>(l, r)\<in>set zs. R l r)"
  by (induction zs) (auto split: bool.splits)

lemma compareValues_emptyObjects:
  "compareValues (Suc n) emptyObjects l r =
     Some (strict_eq l r \<or> (\<exists>a b. l = Ref a \<and> r = Ref b))"
  by (cases l; cases r)
     (auto simp: emptyObjects_def strict_eq_def objectKeys_def compareArrays_def)

lemma defaultComparison_emptyObjects:
  "compareArrays (compareValues (Suc n) emptyObjects) xs ys =
     Some (list_all2 (\<lambda>l r. strict_eq l r \<or> (\<exists>a b. l = Ref a \<and> r = Ref b)) xs ys)"
proof -
  have "compareValues (Suc n) emptyObjects =
      (\<lambda>l r. Some (strict_eq l r \<or> (\<exists>a b. l = Ref a \<and> r = Ref b)))"
    by (intro ext) (rule compareValues_emptyObjects)
  then show ?thesis
    by (simp only: compareArrays_def every_total list_all2_iff) auto
qed

lemma defaultComparison_symmetricTransitive:
  "symmetricTransitive (compareArrays (compareValues (Suc n) emptyObjects))"
  unfolding symmetricTransitive_def defaultComparison_emptyObjects
proof (intro conjI allI impI)
  let ?R = "\<lambda>l r. strict_eq l r \<or> (\<exists>a b. l = Ref a \<and> r = Ref b)"
  fix a b c
  {
    assume "Some (list_all2 ?R a b) = Some True"
    then have "list_all2 ?R a b" by simp
    then have "list_all2 ?R b a"
      by (auto simp: list_all2_conv_all_nth strict_eq_def)
    then show "Some (list_all2 ?R b a) = Some True" by simp
  next
    assume "Some (list_all2 ?R a b) = Some True" and "Some (list_all2 ?R b c) = Some True"
    then have ab: "list_all2 ?R a b" and bc: "list_all2 ?R b c" by simp_all
    have "list_all2 ?R a c"
      by (rule list_all2_trans [OF _ ab bc]) (auto simp: strict_eq_def)
    then show "Some (list_all2 ?R a c) = Some True" by simp
  }
qed

lemma factorialFn_keepsInvariant_default:
  "keepsInvariant (compareArrays (compareValues (Suc n) emptyObjects))
     (factorialFn stack (Suc n) emptyObjects None)"
proof (rule factorialFn_keepsInvariant [OF _ defaultComparison_symmetricTransitive])
  show "activePredicate (Suc n) emptyObjects None =
      compareArrays (compareValues (Suc n) emptyObjects)"
    by (rule activePredicate_pinned) simp
  fix x y :: real and args
  assume "firstArgument args = Number (Finite x)" and "y < x"
  then show "compareArrays (compareValues (Suc n) emptyObjects) [Number (Finite y)] args \<noteq>
      Some True"
    by (cases args) (auto simp: defaultComparison_emptyObjects strict_eq_def)
qed

text \<open>
  Claim C7 as stated fails for a function that calls its memoized version with its own
  arguments: the lookup of the outer call comes before the nested call, so both find no
  entry and both add one.  With the comparison of the argument counts, an equivalence
  relation, and
  \<^verbatim>\<open>const f = memoize(x => { calls++; if (calls > 1) return 0; f(x); return 1 })\<close>,
  the single call \<^verbatim>\<open>f(1)\<close> on a new memoized function leaves two entries that match
  the arguments.
\<close>

theorem atMostOneMatch_counterexample:
  "equivalenceRelation sameArity \<and>
   run 2 mixedKinds (Some sameArity) (reenterOnce 2 mixedKinds (Some sameArity)) 1
       [Call [Number (Finite 1)]] ([], 0) = (reentered, 2) \<and>
   matching sameArity reentered [Number (Finite 1)] = reentered \<and>
   length reentered = 2 \<and>
   \<not> atMostOneMatch sameArity reentered"
proof -
  have 1: "run 2 mixedKinds (Some sameArity) (reenterOnce 2 mixedKinds (Some sameArity)) 1
       [Call [Number (Finite 1)]] ([], 0) = (reentered, 2)"
    by (simp add: memoizedFn_def findCacheIndex_def reenterOnce_def countingZero_def
        reentered_def)
  have 2: "matching sameArity reentered [Number (Finite 1)] = reentered"
    by (simp add: matching_def reentered_def sameArity_def)
  have 3: "length reentered = 2" by (simp add: reentered_def)
  from 2 3 have "\<not> length (matching sameArity reentered [Number (Finite 1)]) \<le> 1" by simp
  then have 4: "\<not> atMostOneMatch sameArity reentered"
    unfolding atMostOneMatch_def by blast
  from sameArity_equivalence 1 2 3 4 show ?thesis by blast
qed

text \<open>
  Claim C7, amended.  Let the active predicate be one symmetric and transitive relation
  throughout (it need not be reflexive), and let the wrapped function, whenever it runs
  after a lookup that found no entry in a cache that satisfies the invariant, leave a cache
  that satisfies the invariant and, if it returns, holds no entry matching the arguments of
  the call.  Then every
  operation (\<^verbatim>\<open>call\<close>, \<^verbatim>\<open>clearEntry\<close>, \<^verbatim>\<open>clearAll\<close>) keeps the invariant
  that no argument list is matched by more than one entry, and the invariant holds after
  every sequence of operations on a new memoized function.  Every function that leaves the
  cache as it is meets the condition.
\<close>

theorem atMostOneMatch_invariant:
  "((comparisonFn = Some pred \<or>
       comparisonFn = None \<and> pred = compareArrays (compareValues n h)) \<and>
      symmetricTransitive pred \<and> keepsInvariant pred fn \<longrightarrow>
      atMostOneMatch pred (fst (run n h comparisonFn fn fnLength ops ([], s))) \<and>
      (atMostOneMatch pred cache \<longrightarrow>
         atMostOneMatch pred (fst (step n h comparisonFn fn fnLength operation (cache, s))))) \<and>
   ((\<forall>args st. fst (snd (fn args st)) = fst st) \<longrightarrow> keepsInvariant pred fn)"
proof (intro conjI impI)
  assume a: "(comparisonFn = Some pred \<or>
       comparisonFn = None \<and> pred = compareArrays (compareValues n h)) \<and>
      symmetricTransitive pred \<and> keepsInvariant pred fn"
  then have P: "activePredicate n h comparisonFn = pred"
    by (intro activePredicate_pinned) blast
  from a have st: "symmetricTransitive pred" and keeps: "keepsInvariant pred fn" by blast+
  have "atMostOneMatch pred []"
    by (simp add: atMostOneMatch_def matching_def)
  then have "atMostOneMatch pred (fst ([], s))" by simp
  then show "atMostOneMatch pred (fst (run n h comparisonFn fn fnLength ops ([], s)))"
    by (rule run_preserves [OF P st keeps])
  assume "atMostOneMatch pred cache"
  then show "atMostOneMatch pred
      (fst (step n h comparisonFn fn fnLength operation (cache, s)))"
    by (rule step_preserves [OF P st keeps])
next
  assume "\<forall>args st. fst (snd (fn args st)) = fst st"
  then show "keepsInvariant pred fn" by (intro keepsInvariant_unchanged) blast
qed

text \<open>
  The amended claim C7 for the strict equality of the first arguments,
  \<^verbatim>\<open>([a], [b]) => a === b\<close>: on the recursive factorial of the repository's test,
  which calls its memoized version, and on \<open>squareFn\<close>, which leaves the cache as it
  is; and for the default comparison on the factorial of the README.
\<close>

theorem atMostOneMatch_invariant_witness:
  "atMostOneMatch sameFirstArgument
     (fst (run 2 mixedKinds (Some sameFirstArgument)
        (factorialFn 100 2 mixedKinds (Some sameFirstArgument)) 1
        [Call [Number (Finite 10)], Call [Number (Finite 9)], ClearEntry [Number (Finite 5)],
         Call [Number (Finite 11)], ClearAll, Call [Number NaN], Call [Number NaN]]
        ([], 0))) \<and>
   atMostOneMatch sameFirstArgument
     (fst (step 2 mixedKinds (Some sameFirstArgument) squareFn 1
        (Call [Number (Finite 5)]) (squares, 0))) \<and>
   atMostOneMatch (compareArrays (compareValues 2 emptyObjects))
     (fst (run 2 emptyObjects None (factorialFn 100 2 emptyObjects None) 1
        [Call [Number (Finite 10)], Call [Number (Finite 9)], ClearEntry [Number (Finite 5)],
         Call [Number (Finite 11)], ClearAll, Call [Number NaN], Call [Number NaN]]
        ([], 0)))"
proof -
  let ?ops = "[Call [Number (Finite 10)], Call [Number (Finite 9)],
    ClearEntry [Number (Finite 5)], Call [Number (Finite 11)], ClearAll, Call [Number NaN],
    Call [Number NaN]]"
  have squares: "atMostOneMatch sameFirstArgument squares"
    unfolding atMostOneMatch_def
  proof
    fix args
    show "length (matching sameFirstArgument squares args) \<le> 1"
      by (cases "firstArgument args = Number (Finite 2)")
         (simp_all add: matching_def squares_def sameFirstArgument_def strict_eq_def)
  qed
  have unchanged: "\<forall>args st. fst (snd (squareFn args st)) = fst st"
    by (simp add: squareFn_unchanged)
  have 1: "atMostOneMatch sameFirstArgument
     (fst (run 2 mixedKinds (Some sameFirstArgument)
        (factorialFn 100 2 mixedKinds (Some sameFirstArgument)) 1 ?ops ([], 0)))"
    using atMostOneMatch_invariant [where comparisonFn = "Some sameFirstArgument"
        and pred = sameFirstArgument and n = 2 and h = mixedKinds
        and fn = "factorialFn 100 2 mixedKinds (Some sameFirstArgument)" and fnLength = 1
        and ops = ?ops and s = 0, THEN conjunct1]
      sameFirstArgument_symmetricTransitive
      factorialFn_keepsInvariant_custom [of 100 2 mixedKinds]
    by blast
  note t = atMostOneMatch_invariant [where comparisonFn = "Some sameFirstArgument"
      and pred = sameFirstArgument and n = 2 and h = mixedKinds and fn = squareFn
      and fnLength = 1 and cache = squares and s = 0
      and operation = "Call [Number (Finite 5)]"]
  from t [THEN conjunct2] unchanged
  have "keepsInvariant sameFirstArgument squareFn" by blast
  with t [THEN conjunct1] sameFirstArgument_symmetricTransitive squares
  have 2: "atMostOneMatch sameFirstArgument
     (fst (step 2 mixedKinds (Some sameFirstArgument) squareFn 1
        (Call [Number (Finite 5)]) (squares, 0)))"
    by blast
  have 3: "atMostOneMatch (compareArrays (compareValues 2 emptyObjects))
     (fst (run 2 emptyObjects None (factorialFn 100 2 emptyObjects None) 1 ?ops ([], 0)))"
    using atMostOneMatch_invariant [where comparisonFn = None
        and pred = "compareArrays (compareValues 2 emptyObjects)" and n = 2
        and h = emptyObjects and fn = "factorialFn 100 2 emptyObjects None" and fnLength = 1
        and ops = ?ops and s = 0, THEN conjunct1]
      defaultComparison_symmetricTransitive [of 1]
      factorialFn_keepsInvariant_default [of 1 100]
    by (simp add: numeral_2_eq_2 [symmetric] del: compareValues.simps)
  from 1 2 3 show ?thesis by blast
qed

subsection \<open>Invalidation\<close>






text \<open>
  Under the default comparison two entries match the same arguments after the calls with the
  two \<^verbatim>\<open>Map\<close>s at 64 and 65, which are not equal but are both equal to the empty
  object at 60, as every object without own enumerable keys is.  Then
  \<^verbatim>\<open>f.clearEntry({})\<close> removes the newer entry and \<^verbatim>\<open>f({})\<close> returns the
  value of the older one: \<open>fn\<close> has still been invoked twice.
\<close>

lemma clearEntry_keyless_objects:
  "run 3 keyOrder None countingZero 1 [Call [Ref 64], Call [Ref 65], ClearEntry [Ref 60]]
       ([], 0) =
     ([\<lparr>key = [Ref 64], value = Number (Finite 0)\<rparr>], 2) \<and>
   memoizedFn 3 keyOrder None countingZero [Ref 60]
       ([\<lparr>key = [Ref 64], value = Number (Finite 0)\<rparr>], 2) =
     (Returned (Number (Finite 0)), [\<lparr>key = [Ref 64], value = Number (Finite 0)\<rparr>], 2)"
proof -
  have D: "defaultComparison 3 keyOrder [Ref 64] [Ref 65] = Some False"
    "defaultComparison 3 keyOrder [Ref 65] [Ref 60] = Some True"
    "defaultComparison 3 keyOrder [Ref 64] [Ref 60] = Some True"
    by code_simp+
  have 1: "run 3 keyOrder None countingZero 1
       [Call [Ref 64], Call [Ref 65], ClearEntry [Ref 60]] ([], 0) =
     ([\<lparr>key = [Ref 64], value = Number (Finite 0)\<rparr>], 2)"
    by (simp add: memoizedFn_def clearEntry_def findCacheIndex_def countingZero_def
        activePredicate_def D del: compareValues.simps)
  have 2: "memoizedFn 3 keyOrder None countingZero [Ref 60]
       ([\<lparr>key = [Ref 64], value = Number (Finite 0)\<rparr>], 2) =
     (Returned (Number (Finite 0)), [\<lparr>key = [Ref 64], value = Number (Finite 0)\<rparr>], 2)"
    by (simp add: memoizedFn_def findCacheIndex_def activePredicate_def D
        del: compareValues.simps)
  from 1 2 show ?thesis by blast
qed




subsection \<open>Arguments that never match\<close>

lemma compareValues_self_False:
  assumes "compareValues m h x x = Some False"
  shows "x = Number NaN"
proof (rule ccontr)
  assume "x \<noteq> Number NaN"
  from compareValues_same [OF this, of m h] assms show False
    by (cases "m = 0") simp_all
qed

lemma every_True:
  "every f xs = Some True \<Longrightarrow> x \<in> set xs \<Longrightarrow> f x = Some True"
  by (induction xs) (auto split: option.splits bool.splits)

lemma defaultComparison_NaN:
  assumes "Number NaN \<in> set args"
  shows "defaultComparison n h k args \<noteq> Some True"
proof
  assume t: "defaultComparison n h k args = Some True"
  then have len: "length k = length args"
    by (auto simp: defaultComparison_def compareArrays_def split: if_splits)
  with t have ev: "every (\<lambda>(l, r). compareValues n h l r) (zip k args) = Some True"
    by (simp add: defaultComparison_def compareArrays_def)
  from assms len obtain l where "(l, Number NaN) \<in> set (zip k args)"
    by (metis in_set_impl_in_set_zip2)
  from every_True [OF ev this] have "compareValues n h l (Number NaN) = Some True" by simp
  then show False by (simp add: compareValues_NaN_right split: if_splits)
qed

lemma defaultComparison_NaN_self:
  "Number NaN \<in> set args \<Longrightarrow> defaultComparison (Suc n) h args args = Some False"
proof -
  have "Number NaN \<in> set xs \<Longrightarrow>
      every (\<lambda>(l, r). compareValues (Suc n) h l r) (zip xs xs) = Some False" for xs
  proof (induction xs)
    case Nil
    then show ?case by simp
  next
    case (Cons a xs)
    show ?case
    proof (cases "a = Number NaN")
      case True
      then show ?thesis by (simp add: compareValues_NaN_right del: compareValues.simps)
    next
      case False
      with Cons show ?thesis by (simp add: compareValues_same del: compareValues.simps)
    qed
  qed
  then show "Number NaN \<in> set args \<Longrightarrow> defaultComparison (Suc n) h args args = Some False"
    by (simp add: defaultComparison_def compareArrays_def del: compareValues.simps)
qed

lemma findCacheIndex_NaN:
  assumes "Number NaN \<in> set args"
    and "findCacheIndex n h None cache args = Some i"
  shows "i = - 1"
proof (rule ccontr)
  assume "i \<noteq> - 1"
  with assms(2) findIndex_hit [of "\<lambda>e. defaultComparison n h (key e) args" cache i]
  have "defaultComparison n h (key (cache ! nat i)) args = Some True"
    by (simp add: findCacheIndex_def activePredicate_def)
  with defaultComparison_NaN [OF assms(1)] show False by blast
qed

text \<open>
  Under the default comparison, arguments that contain \<open>NaN\<close> never find an entry:
  whenever the lookup returns, the call applies \<open>fn\<close>, and two such calls in a row of a
  function that returns and leaves the cache as it is add two entries with the same key.
\<close>

lemma NaN_argument_misses:
  assumes nan: "Number NaN \<in> set args"
    and returns: "findCacheIndex n h None cache args \<noteq> None"
  shows "memoizedFn n h None fn args (cache, s) =
    (case fn args (cache, s) of
       (Inl e, cache', s') \<Rightarrow> (Threw e, cache', s')
     | (Inr v, cache', s') \<Rightarrow> (Returned v, \<lparr>key = args, value = v\<rparr> # cache', s'))"
proof -
  from returns obtain j where j: "findCacheIndex n h None cache args = Some j" by auto
  with findCacheIndex_NaN [OF nan j]
  have "\<forall>e\<in>set cache. activePredicate n h None (key e) args = Some False"
    by (simp add: findCacheIndex_miss [OF refl])
  then show ?thesis by (rule memoizedFn_miss [OF refl])
qed

lemma NaN_argument_twice:
  assumes nan: "Number NaN \<in> set args"
    and returns: "findCacheIndex (Suc n) h None cache args \<noteq> None"
    and fn: "fn args (cache, s) = (Inr v, cache, s')"
      "fn args (\<lparr>key = args, value = v\<rparr> # cache, s') =
         (Inr v', \<lparr>key = args, value = v\<rparr> # cache, s'')"
  shows "run (Suc n) h None fn fnLength [Call args, Call args] (cache, s) =
    (\<lparr>key = args, value = v'\<rparr> # \<lparr>key = args, value = v\<rparr> # cache, s'')"
proof -
  from returns obtain j where j: "findCacheIndex (Suc n) h None cache args = Some j" by auto
  with findCacheIndex_NaN [OF nan j]
  have m1: "\<forall>e\<in>set cache. activePredicate (Suc n) h None (key e) args = Some False"
    by (simp add: findCacheIndex_miss [OF refl])
  then have m2: "\<forall>e\<in>set (\<lparr>key = args, value = v\<rparr> # cache).
      activePredicate (Suc n) h None (key e) args = Some False"
    using defaultComparison_NaN_self [OF nan, of n h] by (simp add: activePredicate_def)
  from fn show ?thesis
    by (simp add: memoizedFn_miss [OF refl m1] memoizedFn_miss [OF refl m2])
qed

lemma NaN_twice_squares:
  "run 2 mixedKinds None squareFn 1 [Call [Number NaN], Call [Number NaN]] (squares, 0) =
     (\<lparr>key = [Number NaN], value = Number NaN\<rparr> #
      \<lparr>key = [Number NaN], value = Number NaN\<rparr> # squares, 2)"
proof -
  have "findCacheIndex (Suc (Suc 0)) mixedKinds None squares [Number NaN] \<noteq> None"
    by (simp add: findCacheIndex_def squares_def activePredicate_def defaultComparison_def
        compareArrays_def strict_eq_def)
  from NaN_argument_twice [where fn = squareFn and fnLength = 1 and s = 0 and s' = 1
      and s'' = 2 and v = "Number NaN" and v' = "Number NaN", OF _ this]
  show ?thesis by (simp add: squareFn_def numeral_2_eq_2)
qed

text \<open>
  Claim C10 (a call whose arguments contain \<open>NaN\<close> never produces a hit: each such call
  invokes the wrapped function again and adds one more entry).  The lookup compares the
  arguments in order and so reaches the arguments before \<open>NaN\<close> first.  After
  \<^verbatim>\<open>f(m3, NaN)\<close>, with the circular list \<open>m3\<close> of the repository's test, the call
  \<^verbatim>\<open>f(n3, NaN)\<close> with the separately built circular list \<open>n3\<close> of the same shape
  compares \<open>m3\<close> with \<open>n3\<close>, which yields no result at any depth of recursion: the call
  neither hits nor invokes \<open>fn\<close>, and the cache keeps its single entry.  This is the
  defect of claim C1, reached through the lookup.
\<close>

theorem NaN_argument_lookup_no_result:
  "memoizedFn n listNodes None countingZero [Ref 23, Number NaN] ([], 0) =
     (Returned (Number (Finite 0)),
      [\<lparr>key = [Ref 23, Number NaN], value = Number (Finite 0)\<rparr>], 1) \<and>
   memoizedFn n listNodes None fn [Ref 33, Number NaN]
       ([\<lparr>key = [Ref 23, Number NaN], value = v\<rparr>], s) =
     (LookupFailed, [\<lparr>key = [Ref 23, Number NaN], value = v\<rparr>], s)"
proof
  show "memoizedFn n listNodes None countingZero [Ref 23, Number NaN] ([], 0) =
     (Returned (Number (Finite 0)),
      [\<lparr>key = [Ref 23, Number NaN], value = Number (Finite 0)\<rparr>], 1)"
    by (simp add: memoizedFn_def findCacheIndex_def countingZero_def)
  have "compareValues n listNodes (Ref 23) (Ref 33) = None"
    using listNodes_loop [of n] by blast
  then have "defaultComparison n listNodes [Ref 23, Number NaN] [Ref 33, Number NaN] = None"
    by (simp add: defaultComparison_def compareArrays_def)
  then show "memoizedFn n listNodes None fn [Ref 33, Number NaN]
       ([\<lparr>key = [Ref 23, Number NaN], value = v\<rparr>], s) =
     (LookupFailed, [\<lparr>key = [Ref 23, Number NaN], value = v\<rparr>], s)"
    by (simp add: memoizedFn_def findCacheIndex_def activePredicate_def)
qed

end
